theory Spec2Isabelle
  imports Complex_Main "HOL-Library.Char_ord" "HOL-Library.List_Lexorder" "HOL-Library.Word"
begin

section \<open>The change watcher's startup diff (watch.cpp)\<close>

text \<open>
  \<^verbatim>\<open>FileInfo\<close> is declared in a header that is not part of the sources; \<^verbatim>\<open>watch.cpp\<close>
  uses its three members \<^verbatim>\<open>path\<close>, \<^verbatim>\<open>timeStamp\<close> and \<^verbatim>\<open>fileSize\<close>. Paths are
  \<^verbatim>\<open>std::string\<close>s, compared bytewise and lexicographically, which is the order of
  \<^typ>\<open>char list\<close> given by the two imported library theories.
\<close>

record FileInfo =
  path :: string
  timeStamp :: nat
  fileSize :: nat

text \<open>
  \<^verbatim>\<open>std::vector::operator[]\<close> does not check its index. An access at an index that is not
  below \<^verbatim>\<open>size()\<close> has no defined behaviour in the source; the model makes it the error
  value \<open>OutOfBounds\<close>.
\<close>

datatype error = OutOfBounds

text \<open>
  The inner loop of \<^verbatim>\<open>getChanges\<close>:
  \<^verbatim>\<open>while (fileIt < files.size() && files[fileIt].path < pf.path)\<close>. The access is behind
  the bounds test of the same condition.
\<close>

function getChanges_skip :: "FileInfo list \<Rightarrow> FileInfo \<Rightarrow> nat \<Rightarrow> string list \<Rightarrow> nat \<times> string list" where
  "getChanges_skip files' pf fileIt result =
     (if fileIt < length files' \<and> path (files' ! fileIt) < path pf
      then getChanges_skip files' pf (fileIt + 1) (result @ [path (files' ! fileIt)])
      else (fileIt, result))"
  by pat_completeness auto
termination
  by (relation "measure (\<lambda>(files', pf, fileIt, result). length files' - fileIt)") auto

declare getChanges_skip.simps [simp del]

text \<open>
  The body of the range-based \<^verbatim>\<open>for\<close> over \<^verbatim>\<open>packFiles\<close>. After the inner loop the source
  evaluates \<^verbatim>\<open>files[fileIt].path == pf.path\<close> with no test of \<^verbatim>\<open>fileIt\<close>.
\<close>

fun getChanges_loop :: "FileInfo list \<Rightarrow> FileInfo list \<Rightarrow> nat \<Rightarrow> string list \<Rightarrow> error + (nat \<times> string list)" where
  "getChanges_loop files' [] fileIt result = Inr (fileIt, result)"
| "getChanges_loop files' (pf # packFiles) fileIt result =
     (case getChanges_skip files' pf fileIt result of
        (fileIt1, result1) \<Rightarrow>
          if fileIt1 < length files' then
            (if path (files' ! fileIt1) = path pf then
               getChanges_loop files' packFiles (fileIt1 + 1)
                 (if FileInfo.timeStamp (files' ! fileIt1) \<noteq> FileInfo.timeStamp pf
                     \<or> FileInfo.fileSize (files' ! fileIt1) \<noteq> FileInfo.fileSize pf
                  then result1 @ [path (files' ! fileIt1)] else result1)
             else getChanges_loop files' packFiles fileIt1 result1)
          else Inl OutOfBounds)"

declare getChanges_loop.simps(2) [simp del]

text \<open>The final loop: \<^verbatim>\<open>while (fileIt < files.size())\<close>.\<close>

function getChanges_rest :: "FileInfo list \<Rightarrow> nat \<Rightarrow> string list \<Rightarrow> string list" where
  "getChanges_rest files' fileIt result =
     (if fileIt < length files'
      then getChanges_rest files' (fileIt + 1) (result @ [path (files' ! fileIt)])
      else result)"
  by pat_completeness auto
termination
  by (relation "measure (\<lambda>(files', fileIt, result). length files' - fileIt)") auto

declare getChanges_rest.simps [simp del]

definition getChanges :: "FileInfo list \<Rightarrow> FileInfo list \<Rightarrow> error + string list" where
  "getChanges files' packFiles =
     (case getChanges_loop files' packFiles 0 [] of
        Inl e \<Rightarrow> Inl e
      | Inr (fileIt, result) \<Rightarrow> Inr (getChanges_rest files' fileIt result))"

section \<open>Declarations that build.cpp takes from absent headers\<close>

text \<open>
  Sizes, offsets, counters and time stamps (\<^verbatim>\<open>size_t\<close>, \<^verbatim>\<open>uint64_t\<close>) are natural numbers
  here; the source's arithmetic on them does not wrap as long as a buffer is shorter than
  \<open>2^31\<close> bytes. A start line is a \<^verbatim>\<open>uint32_t\<close> (\<^verbatim>\<open>unsigned int\<close> where it is passed), and
  \<^verbatim>\<open>file.startLine += skipLines\<close> wraps; it is a 32-bit word here. The other place where
  the source narrows, \<^verbatim>\<open>getIndexHashIterations\<close>, has its reduction modulo \<open>2^32\<close> written
  out.
\<close>

abbreviation newline :: char where
  "newline \<equiv> CHR 0x0A"

text \<open>
  Modelled from the spec: the declaration of \<^verbatim>\<open>DataChunkFileHeader\<close> (format.hpp) is absent.
  The fields are the spec's \<^verbatim>\<open>FileTableEntry\<close> fields, which are the members that
  \<^verbatim>\<open>prepareChunkData\<close> assigns and \<^verbatim>\<open>processChunk\<close> reads.
\<close>

record DataChunkFileHeader =
  nameOffset :: nat
  nameLength :: nat
  dataOffset :: nat
  dataSize :: nat
  startLine :: "32 word"
  reserved :: nat
  fileSize :: nat
  timeStamp :: nat

text \<open>
  Modelled from the spec: the declaration of \<^verbatim>\<open>DataChunkHeader\<close> (format.hpp) is absent.
  The fields are the spec's \<^verbatim>\<open>ChunkHeader\<close> fields; \<^verbatim>\<open>writeChunk\<close> assigns five of them and
  \<^verbatim>\<open>getDataFileList\<close> reads \<^verbatim>\<open>extraSize\<close>, \<^verbatim>\<open>indexSize\<close>, \<^verbatim>\<open>compressedSize\<close>,
  \<^verbatim>\<open>uncompressedSize\<close>, \<^verbatim>\<open>fileTableSize\<close> and \<^verbatim>\<open>fileCount\<close>.
\<close>

record DataChunkHeader =
  fileCount :: nat
  uncompressedSize :: nat
  compressedSize :: nat
  indexSize :: nat
  indexHashIterations :: nat
  fileTableSize :: nat
  extraSize :: nat

section \<open>The pack builder's data (build.cpp)\<close>

text \<open>
  \<^verbatim>\<open>Blob\<close>: a window \<open>(offset, count)\<close> into a shared byte vector. \<^verbatim>\<open>data()\<close> is the pointer
  \<^verbatim>\<open>&(*storage)[0] + offset\<close>; \<open>blob_data b i\<close> is \<^verbatim>\<open>data()[i]\<close>. The method asserts
  \<^verbatim>\<open>offset + count <= storage->size()\<close>, under which the range \<^verbatim>\<open>[data(), data() + size())\<close>
  is \<open>blob_bytes\<close>.
\<close>

record Blob =
  offset :: nat
  count :: nat
  storage :: "char list"

definition Blob_of :: "char list \<Rightarrow> Blob" where
  "Blob_of s = \<lparr>offset = 0, count = length s, storage = s\<rparr>"

definition blob_data :: "Blob \<Rightarrow> nat \<Rightarrow> char" where
  "blob_data b i = storage b ! (offset b + i)"

definition blob_size :: "Blob \<Rightarrow> nat" where
  "blob_size b = count b"

definition blob_bytes :: "Blob \<Rightarrow> char list" where
  "blob_bytes b = take (count b) (drop (offset b) (storage b))"

record File =
  name :: string
  contents :: Blob
  startLine :: "32 word"
  fileSize :: nat
  timeStamp :: nat

record Chunk =
  files :: "File list"
  totalSize :: nat

record Statistics =
  fileCount :: nat
  fileSize :: nat
  resultSize :: nat

text \<open>
  The \<^verbatim>\<open>std::vector<char> data\<close> that \<^verbatim>\<open>prepareChunkData\<close> fills. Its first
  \<^verbatim>\<open>sizeof(DataChunkFileHeader) * files.size()\<close> bytes are written and read only through
  \<^verbatim>\<open>reinterpret_cast<DataChunkFileHeader*>\<close>; the model keeps that region as the list of
  entries (\<open>fileTable\<close>) and the bytes behind it as \<open>tailBytes\<close>, so that the byte at offset
  \<open>o\<close> of the vector, for \<open>o\<close> not in the table, is \<open>tailBytes ! (o - headerSize)\<close>.
\<close>

record ChunkData =
  fileTable :: "DataChunkFileHeader list"
  tailBytes :: "char list"

text \<open>
  The bloom filter that \<^verbatim>\<open>prepareChunkIndex\<close> returns is a vector of \<^verbatim>\<open>indexSize\<close> bytes whose
  bits are set by \<^verbatim>\<open>bloomFilterUpdate\<close> (bloom.hpp, absent). The model keeps the vector's size
  and the contents of the \<^verbatim>\<open>std::unordered_set\<close> of ngrams inserted into it.
\<close>

record BloomIndex =
  indexBytes :: nat
  ngrams :: "nat list"

text \<open>
  What the builder takes from headers that are not part of the sources, as parameters:
  the constant \<^verbatim>\<open>kChunkSize\<close> (constants.hpp), \<^verbatim>\<open>sizeof(DataChunkFileHeader)\<close> (format.hpp),
  the function \<^verbatim>\<open>ngram\<close> (bloom.hpp) and the LZ4-HC compressor called by \<^verbatim>\<open>compressData\<close>.
\<close>

record Ext =
  kChunkSize :: nat
  sizeofDataChunkFileHeader :: nat
  ngram :: "char \<Rightarrow> char \<Rightarrow> char \<Rightarrow> char \<Rightarrow> nat"
  compressData :: "ChunkData \<Rightarrow> char list"

text \<open>One chunk as \<^verbatim>\<open>writeChunk\<close> writes it to \<^verbatim>\<open>outData\<close>: header, index, compressed data.\<close>

record PackChunk =
  header :: DataChunkHeader
  index :: BloomIndex
  cdata :: "char list"

text \<open>
  The members of \<^verbatim>\<open>BuilderImpl\<close>. \<open>outData\<close> is what has been written to the stream after the
  file header. \<open>flushed\<close> is a history variable, not a member of the class: the chunks handed
  to \<^verbatim>\<open>writeChunk\<close> so far, kept to state properties of emitted chunks.
\<close>

record BuilderImpl =
  pendingFiles :: "File list"
  pendingSize :: nat
  outData :: "PackChunk list"
  statistics :: Statistics
  flushed :: "Chunk list"

definition BuilderImpl_start :: BuilderImpl where
  "BuilderImpl_start =
     \<lparr>pendingFiles = [], pendingSize = 0, outData = [],
      statistics = \<lparr>Statistics.fileCount = 0, Statistics.fileSize = 0, resultSize = 0\<rparr>, flushed = []\<rparr>"

section \<open>Cutting chunks\<close>

text \<open>
  \<^verbatim>\<open>skipByLines\<close>: the loop \<^verbatim>\<open>for (size_t i = 0; i < dataSize; ++i)\<close>, started at
  \<open>i = 0\<close> with \<open>result = (0, 0)\<close>.
\<close>

function skipByLines_loop :: "(nat \<Rightarrow> char) \<Rightarrow> nat \<Rightarrow> nat \<Rightarrow> nat \<times> nat \<Rightarrow> nat \<times> nat" where
  "skipByLines_loop data dataSize' i result =
     (if i < dataSize'
      then skipByLines_loop data dataSize' (i + 1)
             (if data i = newline then (i + 1, snd result + 1) else result)
      else result)"
  by pat_completeness auto
termination
  by (relation "measure (\<lambda>(data, dataSize', i, result). dataSize' - i)") auto

declare skipByLines_loop.simps [simp del]

definition skipByLines :: "(nat \<Rightarrow> char) \<Rightarrow> nat \<Rightarrow> nat \<times> nat" where
  "skipByLines data dataSize' = skipByLines_loop data dataSize' 0 (0, 0)"

function skipOneLine_loop :: "(nat \<Rightarrow> char) \<Rightarrow> nat \<Rightarrow> nat \<Rightarrow> nat" where
  "skipOneLine_loop data dataSize' i =
     (if i < dataSize'
      then (if data i = newline then i + 1 else skipOneLine_loop data dataSize' (i + 1))
      else dataSize')"
  by pat_completeness auto
termination
  by (relation "measure (\<lambda>(data, dataSize', i). dataSize' - i)") auto

declare skipOneLine_loop.simps [simp del]

definition skipOneLine :: "(nat \<Rightarrow> char) \<Rightarrow> nat \<Rightarrow> nat" where
  "skipOneLine data dataSize' = skipOneLine_loop data dataSize' 0"

text \<open>\<^verbatim>\<open>splitPrefix\<close> returns the prefix and changes its argument into the remainder.\<close>

definition splitPrefix :: "File \<Rightarrow> nat \<Rightarrow> File \<times> File" where
  "splitPrefix file size' =
     (file\<lparr>contents := (contents file)\<lparr>count := size'\<rparr>\<rparr>,
      file\<lparr>contents := (contents file)\<lparr>offset := offset (contents file) + size',
                                         count := count (contents file) - size'\<rparr>\<rparr>)"

definition appendChunkFile :: "Chunk \<Rightarrow> File \<Rightarrow> Chunk" where
  "appendChunkFile chunk file =
     chunk\<lparr>totalSize := totalSize chunk + blob_size (contents file),
           files := files chunk @ [file]\<rparr>"

text \<open>
  \<^verbatim>\<open>appendChunkFilePrefix\<close> changes both the chunk and the file; the model returns both.
  \<^verbatim>\<open>skipLines\<close> is an \<^verbatim>\<open>unsigned int\<close>, to which the line count of \<^verbatim>\<open>skipByLines\<close> is
  converted, and the addition to the \<^verbatim>\<open>uint32_t\<close> start line is modulo \<open>2^32\<close>.
\<close>

definition appendChunkFilePrefix :: "Chunk \<Rightarrow> File \<Rightarrow> nat \<Rightarrow> Chunk \<times> File" where
  "appendChunkFilePrefix chunk file remainingSize =
     (let data = blob_data (contents file);
          dataSize' = blob_size (contents file);
          skip = skipByLines data remainingSize
      in if fst skip > 0 \<or> files chunk = [] then
           (let skipSize = (if fst skip > 0 then fst skip else skipOneLine data dataSize');
                skipLines = (if fst skip > 0 then of_nat (snd skip) else 1) :: 32 word;
                (prefix, rest) = splitPrefix file skipSize
            in (chunk\<lparr>totalSize := totalSize chunk + skipSize, files := files chunk @ [prefix]\<rparr>,
                rest\<lparr>startLine := File.startLine rest + skipLines\<rparr>))
         else (chunk, file))"

text \<open>
  The \<^verbatim>\<open>while\<close> loop of \<^verbatim>\<open>flushChunk(size_t size)\<close>, on the chunk under construction and the
  list of pending files; it returns both. The second equation is one iteration: the front
  file is popped, and either appended whole, or split, pushed back and the loop left.
\<close>

fun flushChunk_loop :: "nat \<Rightarrow> Chunk \<Rightarrow> File list \<Rightarrow> Chunk \<times> File list" where
  "flushChunk_loop size' chunk [] = (chunk, [])"
| "flushChunk_loop size' chunk (file # pending) =
     (if totalSize chunk < size' then
        (let remainingSize = size' - totalSize chunk
         in if blob_size (contents file) \<le> remainingSize
            then flushChunk_loop size' (appendChunkFile chunk file) pending
            else (let (chunk', file') = appendChunkFilePrefix chunk file remainingSize
                  in (chunk', file' # pending)))
      else (chunk, file # pending))"

declare flushChunk_loop.simps(2) [simp del]

section \<open>Preparing and writing a chunk\<close>

definition getChunkNameTotalSize :: "Chunk \<Rightarrow> nat" where
  "getChunkNameTotalSize chunk = sum_list (map (\<lambda>f. length (name f)) (files chunk))"

definition getChunkDataTotalSize :: "Chunk \<Rightarrow> nat" where
  "getChunkDataTotalSize chunk = sum_list (map (\<lambda>f. blob_size (contents f)) (files chunk))"

text \<open>\<^verbatim>\<open>std::copy(first, last, data.begin() + pos)\<close> into a vector that is long enough.\<close>

definition copy_to :: "char list \<Rightarrow> nat \<Rightarrow> char list \<Rightarrow> char list" where
  "copy_to dest pos src = take pos dest @ src @ drop (pos + length src) dest"

text \<open>
  The loop of \<^verbatim>\<open>prepareChunkData\<close> over the chunk's files, with its index \<open>i\<close> and the two
  running offsets. Offsets count from the start of the vector, so a byte offset \<open>o\<close> behind
  the table is position \<open>o - headerSize\<close> of \<open>tailBytes\<close>.
\<close>

fun prepareChunkData_loop :: "nat \<Rightarrow> File list \<Rightarrow> nat \<Rightarrow> nat \<Rightarrow> nat \<Rightarrow> ChunkData \<Rightarrow> ChunkData" where
  "prepareChunkData_loop headerSize [] i nameOffset' dataOffset' data = data"
| "prepareChunkData_loop headerSize (f # fs) i nameOffset' dataOffset' data =
     prepareChunkData_loop headerSize fs (i + 1)
       (nameOffset' + length (name f)) (dataOffset' + blob_size (contents f))
       (data\<lparr>fileTable := (fileTable data)
                [i := \<lparr>nameOffset = nameOffset', nameLength = length (name f),
                       dataOffset = dataOffset', dataSize = blob_size (contents f),
                       DataChunkFileHeader.startLine = File.startLine f, reserved = 0,
                       DataChunkFileHeader.fileSize = File.fileSize f,
                       DataChunkFileHeader.timeStamp = File.timeStamp f\<rparr>],
             tailBytes := copy_to (copy_to (tailBytes data) (nameOffset' - headerSize) (name f))
                            (dataOffset' - headerSize) (blob_bytes (contents f))\<rparr>)"

text \<open>The vector is created with \<open>totalSize\<close> zero bytes; a zeroed table slot is \<open>zero_entry\<close>.\<close>

definition zero_entry :: DataChunkFileHeader where
  "zero_entry = \<lparr>nameOffset = 0, nameLength = 0, dataOffset = 0, dataSize = 0,
                 DataChunkFileHeader.startLine = 0, reserved = 0,
                 DataChunkFileHeader.fileSize = 0, DataChunkFileHeader.timeStamp = 0\<rparr>"

definition prepareChunkData :: "Ext \<Rightarrow> Chunk \<Rightarrow> ChunkData" where
  "prepareChunkData E chunk =
     (let headerSize = sizeofDataChunkFileHeader E * length (files chunk);
          nameSize = getChunkNameTotalSize chunk;
          dataSize' = getChunkDataTotalSize chunk
      in prepareChunkData_loop headerSize (files chunk) 0 headerSize (headerSize + nameSize)
           \<lparr>fileTable = replicate (length (files chunk)) zero_entry,
            tailBytes = replicate (nameSize + dataSize') (CHR 0x00)\<rparr>)"

text \<open>\<^verbatim>\<open>data.size()\<close> of the vector modelled by a \<open>ChunkData\<close>.\<close>

definition data_size :: "Ext \<Rightarrow> ChunkData \<Rightarrow> nat" where
  "data_size E data = sizeofDataChunkFileHeader E * length (fileTable data) + length (tailBytes data)"

definition getChunkIndexSize :: "Chunk \<Rightarrow> nat" where
  "getChunkIndexSize chunk =
     (let dataSize' = getChunkDataTotalSize chunk;
          indexSize' = dataSize' div 50
      in if indexSize' < 1024 then 0 else indexSize')"

text \<open>
  \<^verbatim>\<open>getIndexHashIterations\<close>. Both parameters are \<^verbatim>\<open>unsigned int\<close>, and so is
  \<^verbatim>\<open>m = indexSize * 8\<close>, which wraps modulo \<open>2^32\<close>. \<open>k\<close> is a \<^verbatim>\<open>double\<close> in the source; the
  model computes it in exact rational arithmetic with the source's decimal constant.
  \<^verbatim>\<open>static_cast<unsigned int>(k)\<close> drops the fraction. The two computations agree on the
  arguments that a chunk with fewer than \<open>2^32\<close> body bytes gives: the exact quotient is
  never an integer there, and among the quotients nearest to an integer there is none that
  the rounding of the two floating-point operations moves across it. They differ at larger
  arguments: for \<^verbatim>\<open>indexSize\<close> 375000000 and \<^verbatim>\<open>itemCount\<close> 693147181 the exact quotient is 3
  and the \<^verbatim>\<open>double\<close> is below 3. The property of the hash count (C8) is therefore stated
  for chunks with fewer than \<open>2^32\<close> body bytes.
\<close>

definition getIndexHashIterations :: "nat \<Rightarrow> nat \<Rightarrow> nat" where
  "getIndexHashIterations indexSize' itemCount =
     (let m = (indexSize' * 8) mod 2 ^ 32;
          n = itemCount;
          k = (if n = 0 then 1 else (693147181 / 1000000000) * rat_of_nat m / rat_of_nat n)
      in if k < 1 then 1 else if k > 16 then 16 else nat \<lfloor>k\<rfloor>)"

text \<open>
  The inner loop of \<^verbatim>\<open>prepareChunkIndex\<close>, \<^verbatim>\<open>for (size_t j = 3; j < file.contents.size(); ++j)\<close>.
  The set of ngrams is a list without repetition; \<open>List.insert\<close> adds an element that is
  not yet in it.
\<close>

function collectNgrams_loop :: "Ext \<Rightarrow> (nat \<Rightarrow> char) \<Rightarrow> nat \<Rightarrow> nat \<Rightarrow> nat list \<Rightarrow> nat list" where
  "collectNgrams_loop E filedata size' j grams =
     (if j < size' then
        (let a = filedata (j - 3); b = filedata (j - 2); c = filedata (j - 1); d = filedata j
         in collectNgrams_loop E filedata size' (j + 1)
              (if a \<noteq> newline \<and> b \<noteq> newline \<and> c \<noteq> newline \<and> d \<noteq> newline
               then List.insert (ngram E a b c d) grams else grams))
      else grams)"
  by pat_completeness auto
termination
  by (relation "measure (\<lambda>(E, filedata, size', j, grams). size' - j)") auto

declare collectNgrams_loop.simps [simp del]

text \<open>The outer loop, over the files of the chunk.\<close>

fun collectNgrams :: "Ext \<Rightarrow> File list \<Rightarrow> nat list \<Rightarrow> nat list" where
  "collectNgrams E [] grams = grams"
| "collectNgrams E (file # fs) grams =
     collectNgrams E fs
       (collectNgrams_loop E (blob_data (contents file)) (blob_size (contents file)) 3 grams)"

text \<open>
  \<^verbatim>\<open>prepareChunkIndex\<close>. The call of \<^verbatim>\<open>getIndexHashIterations\<close> converts \<^verbatim>\<open>size_t\<close> arguments
  to \<^verbatim>\<open>unsigned int\<close>.
\<close>

definition prepareChunkIndex :: "Ext \<Rightarrow> Chunk \<Rightarrow> BloomIndex \<times> nat" where
  "prepareChunkIndex E chunk =
     (let indexSize' = getChunkIndexSize chunk
      in if indexSize' = 0 then (\<lparr>indexBytes = 0, ngrams = []\<rparr>, 0)
         else (let grams = collectNgrams E (files chunk) [];
                   iterations = getIndexHashIterations (indexSize' mod 2 ^ 32) (length grams mod 2 ^ 32)
               in (\<lparr>indexBytes = indexSize', ngrams = grams\<rparr>, iterations)))"

text \<open>
  \<^verbatim>\<open>writeChunk\<close>. \<^verbatim>\<open>DataChunkHeader header = {}\<close> sets every member to zero; five members are
  assigned afterwards, and \<^verbatim>\<open>fileTableSize\<close> and \<^verbatim>\<open>extraSize\<close> are not.
\<close>

definition writeChunk :: "Ext \<Rightarrow> Chunk \<Rightarrow> BloomIndex \<times> nat \<Rightarrow> ChunkData \<Rightarrow> BuilderImpl \<Rightarrow> BuilderImpl" where
  "writeChunk E chunk idx data st =
     (let cdata' = compressData E data;
          header' = \<lparr>DataChunkHeader.fileCount = length (files chunk),
                    uncompressedSize = data_size E data,
                    compressedSize = length cdata',
                    indexSize = indexBytes (fst idx),
                    indexHashIterations = snd idx,
                    fileTableSize = 0,
                    extraSize = 0\<rparr>;
          s = statistics st
      in st\<lparr>outData := outData st @ [\<lparr>header = header', index = fst idx, cdata = cdata'\<rparr>],
            statistics :=
              \<lparr>Statistics.fileCount = Statistics.fileCount s
                             + length (filter (\<lambda>f. File.startLine f = 0) (files chunk)),
               Statistics.fileSize = Statistics.fileSize s + data_size E data,
               resultSize = resultSize s + length cdata'\<rparr>,
            flushed := flushed st @ [chunk]\<rparr>)"

text \<open>The overload \<^verbatim>\<open>flushChunk(const Chunk& chunk)\<close>, which stores the chunk.\<close>

definition flushChunk_store :: "Ext \<Rightarrow> Chunk \<Rightarrow> BuilderImpl \<Rightarrow> BuilderImpl" where
  "flushChunk_store E chunk st =
     (if files chunk = [] then st
      else writeChunk E chunk (prepareChunkIndex E chunk) (prepareChunkData E chunk) st)"

text \<open>
  The overload \<^verbatim>\<open>flushChunk(size_t size)\<close>. The source asserts
  \<^verbatim>\<open>chunk.totalSize <= pendingSize\<close> before the subtraction.
\<close>

definition flushChunk :: "Ext \<Rightarrow> nat \<Rightarrow> BuilderImpl \<Rightarrow> BuilderImpl" where
  "flushChunk E size' st =
     (let (chunk, pending) = flushChunk_loop size' \<lparr>files = [], totalSize = 0\<rparr> (pendingFiles st)
      in flushChunk_store E chunk
           (st\<lparr>pendingFiles := pending, pendingSize := pendingSize st - totalSize chunk\<rparr>))"

text \<open>
  The two \<^verbatim>\<open>while\<close> loops around \<^verbatim>\<open>flushChunk(kChunkSize)\<close>. Nothing in their text bounds the
  number of iterations, so they are partial functions: \<open>None\<close> is a loop that never ends.
\<close>

partial_function (option) flushIfNeeded :: "Ext \<Rightarrow> BuilderImpl \<Rightarrow> BuilderImpl option" where
  "flushIfNeeded E st =
     (if pendingSize st \<ge> kChunkSize E * 2
      then flushIfNeeded E (flushChunk E (kChunkSize E) st)
      else Some st)"

partial_function (option) flush :: "Ext \<Rightarrow> BuilderImpl \<Rightarrow> BuilderImpl option" where
  "flush E st =
     (if pendingSize st > 0
      then flush E (flushChunk E (kChunkSize E) st)
      else Some st)"

declare flushIfNeeded.simps [code] flush.simps [code]

definition appendFilePart :: "Ext \<Rightarrow> string \<Rightarrow> 32 word \<Rightarrow> char list \<Rightarrow> nat \<Rightarrow> nat \<Rightarrow> BuilderImpl \<Rightarrow> BuilderImpl option" where
  "appendFilePart E path' startLine' data lastWriteTime fileSize' st =
     (let file = \<lparr>name = path', contents = Blob_of data, File.startLine = startLine',
                  File.fileSize = fileSize', File.timeStamp = lastWriteTime\<rparr>
      in flushIfNeeded E
           (st\<lparr>pendingFiles := pendingFiles st @ [file],
               pendingSize := pendingSize st + length data\<rparr>))"

text \<open>
  \<^verbatim>\<open>appendFile\<close> reads the file through \<^verbatim>\<open>getFileAttributes\<close>, \<^verbatim>\<open>std::ifstream\<close> and
  \<^verbatim>\<open>convertToUTF8\<close>. The model takes the file system as a map from a path to the attributes
  and the converted contents of a readable file; an unreadable file gives \<^verbatim>\<open>false\<close> and
  leaves the builder as it is.
\<close>

definition appendFile :: "Ext \<Rightarrow> (string \<rightharpoonup> nat \<times> nat \<times> char list) \<Rightarrow> string \<Rightarrow> BuilderImpl \<Rightarrow> (bool \<times> BuilderImpl) option" where
  "appendFile E fs path' st =
     (case fs path' of
        None \<Rightarrow> Some (False, st)
      | Some (lastWriteTime, fileSize', contents') \<Rightarrow>
          map_option (Pair True) (appendFilePart E path' 0 contents' lastWriteTime fileSize' st))"

text \<open>A build: a sequence of calls on a builder.\<close>

datatype Call = AppendFilePart string "32 word" "char list" nat nat | Flush

fun call :: "Ext \<Rightarrow> Call \<Rightarrow> BuilderImpl \<Rightarrow> BuilderImpl option" where
  "call E (AppendFilePart path' startLine' data lastWriteTime fileSize') st =
     appendFilePart E path' startLine' data lastWriteTime fileSize' st"
| "call E Flush st = flush E st"

fun calls :: "Ext \<Rightarrow> Call list \<Rightarrow> BuilderImpl \<Rightarrow> BuilderImpl option" where
  "calls E [] st = Some st"
| "calls E (c # cs) st = (case call E c st of None \<Rightarrow> None | Some st' \<Rightarrow> calls E cs st')"

section \<open>Reading the file list back (watch.cpp)\<close>

text \<open>
  \<^verbatim>\<open>processChunk\<close> reads \<^verbatim>\<open>fileCount\<close> table entries from the decompressed buffer and, for an
  entry with \<^verbatim>\<open>startLine == 0\<close>, the name at \<^verbatim>\<open>data + nameOffset\<close>. The buffer holds what
  decompression wrote to it; a read of a table entry or of name bytes that are not there is
  the error \<open>OutOfBounds\<close>. The source does not compare \<^verbatim>\<open>nameOffset\<close> with the size of the
  table: for an offset inside the table it reads the table's own bytes as the name. The
  model keeps the table as entries and not as bytes, and gives \<open>OutOfBounds\<close> for such an
  offset as well, so \<open>read_name\<close> is defined on fewer buffers than the source's read.
  \<^verbatim>\<open>prepareChunkData\<close> writes no such offset, the names start behind the table
  (\<open>prepareChunkData_loop_fileTable\<close>), and no property below rests on the error.
\<close>

definition read_name :: "nat \<Rightarrow> ChunkData \<Rightarrow> nat \<Rightarrow> nat \<Rightarrow> error + string" where
  "read_name headerSize data off len =
     (if headerSize \<le> off \<and> off - headerSize + len \<le> length (tailBytes data)
      then Inr (take len (drop (off - headerSize) (tailBytes data)))
      else Inl OutOfBounds)"

function processChunk_loop :: "nat \<Rightarrow> FileInfo list \<Rightarrow> ChunkData \<Rightarrow> nat \<Rightarrow> nat \<Rightarrow> error + FileInfo list" where
  "processChunk_loop headerSize result data fileCount' i =
     (if i < fileCount' then
        (if i < length (fileTable data) then
           (let file = fileTable data ! i
            in if DataChunkFileHeader.startLine file = 0 then
                 (case read_name headerSize data (nameOffset file) (nameLength file) of
                    Inl e \<Rightarrow> Inl e
                  | Inr n \<Rightarrow>
                      processChunk_loop headerSize
                        (result @ [\<lparr>path = n, FileInfo.timeStamp = DataChunkFileHeader.timeStamp file,
                                    FileInfo.fileSize = DataChunkFileHeader.fileSize file\<rparr>])
                        data fileCount' (i + 1))
               else processChunk_loop headerSize result data fileCount' (i + 1))
         else Inl OutOfBounds)
      else Inr result)"
  by pat_completeness auto
termination
  by (relation "measure (\<lambda>(headerSize, result, data, fileCount', i). fileCount' - i)") auto

declare processChunk_loop.simps [simp del]

definition processChunk :: "nat \<Rightarrow> FileInfo list \<Rightarrow> ChunkData \<Rightarrow> nat \<Rightarrow> error + FileInfo list" where
  "processChunk entrySize result data fileCount' =
     processChunk_loop (entrySize * fileCount') result data fileCount' 0"

text \<open>
  The chunk loop of \<^verbatim>\<open>getDataFileList\<close>, on the chunks that follow a file header with the right
  magic. \<^verbatim>\<open>decompressPartial\<close> (compression.hpp) is absent and is a parameter: from the size of the
  destination, the compressed bytes and the requested prefix length it gives the contents
  of the destination buffer.
\<close>

fun getDataFileList_loop :: "(nat \<Rightarrow> char list \<Rightarrow> nat \<Rightarrow> ChunkData) \<Rightarrow> nat \<Rightarrow> PackChunk list \<Rightarrow> FileInfo list \<Rightarrow> error + FileInfo list" where
  "getDataFileList_loop decompressPartial entrySize [] result = Inr result"
| "getDataFileList_loop decompressPartial entrySize (chunk # pack) result =
     (let uncompressed = decompressPartial (uncompressedSize (header chunk)) (cdata chunk)
                           (fileTableSize (header chunk))
      in case processChunk entrySize result uncompressed
                (DataChunkHeader.fileCount (header chunk)) of
           Inl e \<Rightarrow> Inl e
         | Inr result' \<Rightarrow> getDataFileList_loop decompressPartial entrySize pack result')"

definition getDataFileList :: "(nat \<Rightarrow> char list \<Rightarrow> nat \<Rightarrow> ChunkData) \<Rightarrow> nat \<Rightarrow> PackChunk list \<Rightarrow> error + FileInfo list" where
  "getDataFileList decompressPartial entrySize pack =
     getDataFileList_loop decompressPartial entrySize pack []"

section \<open>Notions used to state the properties\<close>

text \<open>The bytes of a list of pending files, which \<^verbatim>\<open>pendingSize\<close> is meant to count.\<close>

definition pending_bytes :: "File list \<Rightarrow> nat" where
  "pending_bytes fs = sum_list (map (\<lambda>f. blob_size (contents f)) fs)"

definition count_ok :: "BuilderImpl \<Rightarrow> bool" where
  "count_ok st = (pendingSize st = pending_bytes (pendingFiles st))"

text \<open>
  The bytes of a list of files, one file after the other. \<open>blob_ok\<close> is the assertion of
  \<^verbatim>\<open>Blob::data()\<close>: the window lies within its storage.
\<close>

definition file_bytes :: "File list \<Rightarrow> char list" where
  "file_bytes fs = concat (map (\<lambda>f. blob_bytes (contents f)) fs)"

definition blob_ok :: "Blob \<Rightarrow> bool" where
  "blob_ok b = (offset b + count b \<le> length (storage b))"



text \<open>The number of newline bytes among \<open>data a, \<dots>, data (b - 1)\<close>.\<close>

definition newlines_in :: "(nat \<Rightarrow> char) \<Rightarrow> nat \<Rightarrow> nat \<Rightarrow> nat" where
  "newlines_in data a b = length (filter (\<lambda>j. data j = newline) [a..<b])"

text \<open>
  The two files that \<^verbatim>\<open>splitPrefix\<close> and the line update of \<^verbatim>\<open>appendChunkFilePrefix\<close>
  make of a file: its first \<open>k\<close> bytes, and the rest, \<open>l\<close> lines further down.
\<close>

definition cut_file :: "File \<Rightarrow> nat \<Rightarrow> File" where
  "cut_file f k = f\<lparr>contents := (contents f)\<lparr>count := k\<rparr>\<rparr>"

definition rest_file :: "File \<Rightarrow> nat \<Rightarrow> 32 word \<Rightarrow> File" where
  "rest_file f k l =
     f\<lparr>contents := (contents f)\<lparr>offset := offset (contents f) + k, count := count (contents f) - k\<rparr>,
       File.startLine := File.startLine f + l\<rparr>"

text \<open>
  A configuration to run the builder on concrete inputs. Modelled from the spec: \<^verbatim>\<open>ngram\<close>
  (bloom.hpp) is absent; the spec maps the four bytes to a 32-bit integer by concatenating
  them. \<^verbatim>\<open>sizeof(DataChunkFileHeader)\<close> is 40 for six 32-bit and two 64-bit members. The
  compressor is a stand-in that keeps the bytes behind the file table; no property below
  depends on what it returns.
\<close>

definition ngram_be :: "char \<Rightarrow> char \<Rightarrow> char \<Rightarrow> char \<Rightarrow> nat" where
  "ngram_be a b c d = ((of_char a * 256 + of_char b) * 256 + of_char c) * 256 + of_char d"

definition testExt :: "nat \<Rightarrow> Ext" where
  "testExt chunkSize =
     \<lparr>kChunkSize = chunkSize, sizeofDataChunkFileHeader = 40, ngram = ngram_be,
      compressData = tailBytes\<rparr>"

text \<open>
  A file that is one line longer than \<open>sz\<close> bytes: no newline before its last byte.
\<close>

definition one_long_line :: "nat \<Rightarrow> File \<Rightarrow> bool" where
  "one_long_line sz f =
     (sz < blob_size (contents f)
      \<and> list_all (\<lambda>j. blob_data (contents f) j \<noteq> newline) [0..<blob_size (contents f) - 1])"

text \<open>
  The budget of an emitted chunk: it has a file, and its body bytes are at most \<open>sz\<close>
  unless it is a single file that is one line longer than \<open>sz\<close>.
\<close>

definition budget_ok :: "nat \<Rightarrow> Chunk \<Rightarrow> bool" where
  "budget_ok sz c =
     (files c \<noteq> []
      \<and> (getChunkDataTotalSize c \<le> sz
         \<or> length (files c) = 1 \<and> one_long_line sz (hd (files c))))"

text \<open>
  A file record \<open>f\<close> is a fragment of the part that a call of \<^verbatim>\<open>appendFilePart\<close> appended:
  it carries the part's name, time stamp and file size, and its contents are a window into
  the part's bytes \<open>d\<close>. If the window is not empty, the fragment's start line is the part's
  start line plus the number of newlines in front of the window, in the arithmetic modulo
  \<open>2^32\<close> of the \<^verbatim>\<open>uint32_t\<close> start line, and a window that does not start the part starts
  right behind a newline.
\<close>

fun fragment_of :: "Call \<Rightarrow> File \<Rightarrow> bool" where
  "fragment_of (AppendFilePart p l d t z) f =
     (name f = p \<and> File.timeStamp f = t \<and> File.fileSize f = z \<and> storage (contents f) = d
      \<and> offset (contents f) + count (contents f) \<le> length d
      \<and> (count (contents f) = 0
         \<or> File.startLine f = l + of_nat (count_list (take (offset (contents f)) d) newline)
           \<and> (0 < offset (contents f) \<longrightarrow> d ! (offset (contents f) - 1) = newline)))"
| "fragment_of Flush f = False"

definition fragments_ok :: "Call set \<Rightarrow> File list \<Rightarrow> bool" where
  "fragments_ok A fs = (\<forall>f\<in>set fs. \<exists>part\<in>A. fragment_of part f)"

text \<open>
  The diff that the watcher is to compute. A current file is changed when no pack entry has
  its path together with its time stamp and its file size. Both lists are sorted by path,
  without repetition.
\<close>

definition changed :: "FileInfo list \<Rightarrow> FileInfo \<Rightarrow> bool" where
  "changed packFiles f =
     list_all (\<lambda>pf. path pf \<noteq> path f
                  \<or> FileInfo.timeStamp f \<noteq> FileInfo.timeStamp pf
                  \<or> FileInfo.fileSize f \<noteq> FileInfo.fileSize pf) packFiles"

abbreviation by_path :: "FileInfo list \<Rightarrow> bool" where
  "by_path fs \<equiv> sorted_wrt (\<lambda>a b. path a < path b) fs"

text \<open>The elements of a list from index \<open>a\<close> up to, not including, index \<open>b\<close>.\<close>

definition seg :: "'a list \<Rightarrow> nat \<Rightarrow> nat \<Rightarrow> 'a list" where
  "seg xs a b = take (b - a) (drop a xs)"

text \<open>
  What the loop of \<^verbatim>\<open>prepareChunkData\<close> is to leave in the vector: the table entries of the
  files with their running offsets, and the names one after the other. What \<^verbatim>\<open>processChunk\<close>
  is to make of a chunk's files: the triples of those with start line 0.
\<close>

fun entries :: "nat \<Rightarrow> nat \<Rightarrow> File list \<Rightarrow> DataChunkFileHeader list" where
  "entries no do [] = []"
| "entries no do (f # fs) =
     \<lparr>nameOffset = no, nameLength = length (name f), dataOffset = do,
      dataSize = blob_size (contents f), DataChunkFileHeader.startLine = File.startLine f,
      reserved = 0, DataChunkFileHeader.fileSize = File.fileSize f,
      DataChunkFileHeader.timeStamp = File.timeStamp f\<rparr>
     # entries (no + length (name f)) (do + blob_size (contents f)) fs"

definition names_of :: "File list \<Rightarrow> char list" where
  "names_of fs = concat (map name fs)"

definition infos_of :: "File list \<Rightarrow> FileInfo list" where
  "infos_of fs =
     map (\<lambda>f. \<lparr>path = name f, FileInfo.timeStamp = File.timeStamp f,
                 FileInfo.fileSize = File.fileSize f\<rparr>)
         (filter (\<lambda>f. File.startLine f = 0) fs)"

text \<open>A builder with seven pending bytes in three lines, the last one not terminated.\<close>

definition pendingExample :: BuilderImpl where
  "pendingExample =
     BuilderImpl_start
       \<lparr>pendingFiles :=
          [\<lparr>name = ''a.txt'',
            contents = Blob_of [CHR ''a'', CHR ''b'', newline, CHR ''c'', CHR ''d'', newline, CHR ''e''],
            File.startLine = 0, File.fileSize = 7, File.timeStamp = 1\<rparr>],
        pendingSize := 7\<rparr>"


text \<open>
  The ngrams that the inner loop of \<^verbatim>\<open>prepareChunkIndex\<close> is to insert for the positions
  from \<open>a\<close> up to \<open>b\<close> of a file: those of the windows of four bytes without a newline.
\<close>

definition windows :: "Ext \<Rightarrow> (nat \<Rightarrow> char) \<Rightarrow> nat \<Rightarrow> nat \<Rightarrow> nat set" where
  "windows E fd a b =
     (\<lambda>i. ngram E (fd (i - 3)) (fd (i - 2)) (fd (i - 1)) (fd i)) `
       {i. a \<le> i \<and> i < b \<and> fd (i - 3) \<noteq> newline \<and> fd (i - 2) \<noteq> newline
             \<and> fd (i - 1) \<noteq> newline \<and> fd i \<noteq> newline}"

text \<open>
  A chunk of three files with 51200 body bytes and 384 distinct ngrams. The file with
  stride \<open>s\<close> holds the bytes \<open>32 + (s * j) mod 128\<close>; each of its windows is
  \<open>stride_window (s, x)\<close> for the first byte \<open>32 + x\<close>.
\<close>

definition strided :: "nat \<Rightarrow> nat \<Rightarrow> char list" where
  "strided s n = map (\<lambda>j. char_of (32 + (s * j) mod 128)) [0..<n]"

definition stridedExample :: Chunk where
  "stridedExample =
     \<lparr>files = [\<lparr>name = ''a'', contents = Blob_of (strided 3 20000),
                File.startLine = 0, File.fileSize = 20000, File.timeStamp = 1\<rparr>,
               \<lparr>name = ''b'', contents = Blob_of (strided 5 20000),
                File.startLine = 0, File.fileSize = 20000, File.timeStamp = 2\<rparr>,
               \<lparr>name = ''c'', contents = Blob_of (strided 7 11200),
                File.startLine = 0, File.fileSize = 11200, File.timeStamp = 3\<rparr>],
      totalSize = 51200\<rparr>"

definition stride_window :: "nat \<times> nat \<Rightarrow> nat" where
  "stride_window = (\<lambda>(s, x).
     ngram_be (char_of (32 + x)) (char_of (32 + (x + s) mod 128))
              (char_of (32 + (x + 2 * s) mod 128)) (char_of (32 + (x + 3 * s) mod 128)))"

section \<open>Properties of the startup diff\<close>

lemma getChanges_skip_stop:
  "\<not> (fileIt < length files' \<and> path (files' ! fileIt) < path pf) \<Longrightarrow>
   getChanges_skip files' pf fileIt result = (fileIt, result)"
  by (subst getChanges_skip.simps) auto

lemma getChanges_skip_step:
  "fileIt < length files' \<Longrightarrow> path (files' ! fileIt) < path pf \<Longrightarrow>
   getChanges_skip files' pf fileIt result =
   getChanges_skip files' pf (fileIt + 1) (result @ [path (files' ! fileIt)])"
  by (subst getChanges_skip.simps) simp

lemma getChanges_rest_eq:
  "getChanges_rest fs i r = r @ map path (drop i fs)"
proof (induction fs i r rule: getChanges_rest.induct)
  case (1 fs i r)
  show ?case
  proof (cases "i < length fs")
    case True
    then show ?thesis
      using "1.IH" by (subst getChanges_rest.simps) (simp add: Cons_nth_drop_Suc [symmetric])
  next
    case False
    then show ?thesis by (subst getChanges_rest.simps) simp
  qed
qed

text \<open>The inner loop reports the files in front of the pack entry and stops at the first other.\<close>

lemma getChanges_skip_eq:
  assumes "getChanges_skip fs pf i r = (i', r')"
  shows "i \<le> i' \<and> i' \<le> max i (length fs) \<and> r' = r @ map path (take (i' - i) (drop i fs))
         \<and> (\<forall>j. i \<le> j \<and> j < i' \<longrightarrow> path (fs ! j) < path pf)
         \<and> (i' < length fs \<longrightarrow> \<not> path (fs ! i') < path pf)"
  using assms
proof (induction fs pf i r rule: getChanges_skip.induct)
  case (1 fs pf i r)
  show ?case
  proof (cases "i < length fs \<and> path (fs ! i) < path pf")
    case True
    then have run: "getChanges_skip fs pf (i + 1) (r @ [path (fs ! i)]) = (i', r')"
      using "1.prems" by (simp add: getChanges_skip_step)
    from "1.IH" [OF True run]
    have ih: "i + 1 \<le> i'" "i' \<le> max (i + 1) (length fs)"
      "r' = (r @ [path (fs ! i)]) @ map path (take (i' - (i + 1)) (drop (i + 1) fs))"
      "\<forall>j. i + 1 \<le> j \<and> j < i' \<longrightarrow> path (fs ! j) < path pf"
      "i' < length fs \<longrightarrow> \<not> path (fs ! i') < path pf"
      by simp_all
    have "take (i' - i) (drop i fs) = fs ! i # take (i' - (i + 1)) (drop (i + 1) fs)"
    proof -
      have "drop i fs = fs ! i # drop (i + 1) fs"
        using True by (simp add: Cons_nth_drop_Suc)
      moreover obtain d where "i' - i = Suc d" "i' - (i + 1) = d"
        using ih(1) by (cases "i' - i") auto
      ultimately show ?thesis by simp
    qed
    moreover have "\<forall>j. i \<le> j \<and> j < i' \<longrightarrow> path (fs ! j) < path pf"
    proof (intro allI impI)
      fix j assume "i \<le> j \<and> j < i'"
      then show "path (fs ! j) < path pf"
        using True ih(4) by (cases "j = i") auto
    qed
    ultimately show ?thesis using ih True by auto
  next
    case False
    then have "i' = i" "r' = r"
      using "1.prems" by (simp_all add: getChanges_skip_stop)
    then show ?thesis using False by auto
  qed
qed

lemma seg_split: "a \<le> m \<Longrightarrow> m \<le> b \<Longrightarrow> seg xs a b = seg xs a m @ seg xs m b"
proof -
  assume "a \<le> m" "m \<le> b"
  then have "b - a = (m - a) + (b - m)" by simp
  then have "take (b - a) (drop a xs) = take (m - a) (drop a xs) @ take (b - m) (drop (m - a) (drop a xs))"
    by (simp add: take_add)
  then show ?thesis using \<open>a \<le> m\<close> by (simp add: seg_def)
qed

lemma seg_one: "i < length xs \<Longrightarrow> seg xs i (Suc i) = [xs ! i]"
  by (simp add: seg_def take_Suc_conv_app_nth [of 0] hd_drop_conv_nth take_Suc)

lemma seg_empty [simp]: "seg xs a a = []"
  by (simp add: seg_def)

lemma in_segE:
  assumes "x \<in> set (seg xs a b)"
  obtains j where "a \<le> j" "j < b" "j < length xs" "x = xs ! j"
proof -
  from assms obtain k where k: "k < length (seg xs a b)" "x = seg xs a b ! k"
    by (auto simp: in_set_conv_nth)
  then have "k < b - a" "a + k < length xs" by (auto simp: seg_def)
  moreover from this k have "x = xs ! (a + k)" by (simp add: seg_def)
  ultimately show ?thesis by (intro that [of "a + k"]) simp_all
qed

lemma changed_Cons:
  "changed (p # ps) f \<longleftrightarrow>
   (path p \<noteq> path f \<or> FileInfo.timeStamp f \<noteq> FileInfo.timeStamp p
      \<or> FileInfo.fileSize f \<noteq> FileInfo.fileSize p) \<and> changed ps f"
  by (simp add: changed_def)

lemma changed_above:
  assumes "\<And>q. q \<in> set ps \<Longrightarrow> path f < path q"
  shows "changed ps f"
  unfolding changed_def list_all_iff
proof
  fix pf assume "pf \<in> set ps"
  then have "path f < path pf" by (rule assms)
  then have "path pf \<noteq> path f" by auto
  then show "path pf \<noteq> path f \<or> FileInfo.timeStamp f \<noteq> FileInfo.timeStamp pf
             \<or> FileInfo.fileSize f \<noteq> FileInfo.fileSize pf" by simp
qed

lemma changed_below:
  assumes "\<And>q. q \<in> set ps \<Longrightarrow> path q < path f"
  shows "changed ps f"
  unfolding changed_def list_all_iff
proof
  fix pf assume "pf \<in> set ps"
  then have "path pf < path f" by (rule assms)
  then have "path pf \<noteq> path f" by auto
  then show "path pf \<noteq> path f \<or> FileInfo.timeStamp f \<noteq> FileInfo.timeStamp pf
             \<or> FileInfo.fileSize f \<noteq> FileInfo.fileSize pf" by simp
qed

lemma getChanges_loop_Cons:
  "getChanges_skip fs pf i r = (i1, r1) \<Longrightarrow>
   getChanges_loop fs (pf # ps) i r =
     (if i1 < length fs then
        (if path (fs ! i1) = path pf then
           getChanges_loop fs ps (i1 + 1)
             (if FileInfo.timeStamp (fs ! i1) \<noteq> FileInfo.timeStamp pf
                 \<or> FileInfo.fileSize (fs ! i1) \<noteq> FileInfo.fileSize pf
              then r1 @ [path (fs ! i1)] else r1)
         else getChanges_loop fs ps i1 r1)
      else Inl OutOfBounds)"
  by (simp only: getChanges_loop.simps prod.case)

lemma getChanges_loop_eq:
  assumes "by_path fs"
  shows "by_path ps \<Longrightarrow> getChanges_loop fs ps i r = Inr (i', r') \<Longrightarrow>
         i \<le> i' \<and> r' = r @ map path (filter (changed ps) (seg fs i i'))
         \<and> (\<forall>j q. i' \<le> j \<and> j < length fs \<and> q \<in> set ps \<longrightarrow> path q < path (fs ! j))"
proof (induction ps arbitrary: i r)
  case Nil
  then show ?case by simp
next
  case (Cons p ps)
  have mono: "path (fs ! a) < path (fs ! b)" if "a < b" "b < length fs" for a b
    using assms that by (simp add: sorted_wrt_iff_nth_less)
  have above: "path p < path q" if "q \<in> set ps" for q
    using Cons.prems(1) that by simp
  have ps: "by_path ps" using Cons.prems(1) by simp
  obtain i1 r1 where skip: "getChanges_skip fs p i r = (i1, r1)"
    by (cases "getChanges_skip fs p i r")
  from getChanges_skip_eq [OF skip]
  have s: "i \<le> i1" "r1 = r @ map path (seg fs i i1)"
    "\<And>j. i \<le> j \<Longrightarrow> j < i1 \<Longrightarrow> path (fs ! j) < path p"
    "i1 < length fs \<Longrightarrow> \<not> path (fs ! i1) < path p"
    by (simp_all add: seg_def)
  have lt: "i1 < length fs"
  proof (rule ccontr)
    assume "\<not> i1 < length fs"
    then have "getChanges_loop fs (p # ps) i r = Inl OutOfBounds"
      by (simp only: getChanges_loop_Cons [OF skip] if_False)
    then show False using Cons.prems(2) by simp
  qed
  have front: "filter (changed (p # ps)) (seg fs i i1) = seg fs i i1"
  proof (rule filter_True, rule ballI)
    fix f assume "f \<in> set (seg fs i i1)"
    then obtain j where j: "i \<le> j" "j < i1" "f = fs ! j" by (rule in_segE)
    have "path f < path q" if "q \<in> set (p # ps)" for q
      using that s(3) [OF j(1,2)] above j(3) by (auto intro: less_trans)
    then show "changed (p # ps) f" by (rule changed_above)
  qed
  let ?c = "fs ! i1"
  show ?case
  proof (cases "path ?c = path p")
    case True
    define r2 where "r2 =
      (if FileInfo.timeStamp ?c \<noteq> FileInfo.timeStamp p \<or> FileInfo.fileSize ?c \<noteq> FileInfo.fileSize p
       then r1 @ [path ?c] else r1)"
    have run: "getChanges_loop fs ps (i1 + 1) r2 = Inr (i', r')"
      using Cons.prems(2) unfolding getChanges_loop_Cons [OF skip] r2_def
      using lt True by simp
    from Cons.IH [OF ps run]
    have ih: "i1 + 1 \<le> i'" "r' = r2 @ map path (filter (changed ps) (seg fs (i1 + 1) i'))"
      "\<And>j q. i' \<le> j \<Longrightarrow> j < length fs \<Longrightarrow> q \<in> set ps \<Longrightarrow> path q < path (fs ! j)"
      by auto
    have c: "changed (p # ps) ?c \<longleftrightarrow>
             (FileInfo.timeStamp ?c \<noteq> FileInfo.timeStamp p \<or> FileInfo.fileSize ?c \<noteq> FileInfo.fileSize p)"
      using True above by (auto simp: changed_Cons intro: changed_above)
    have rest: "filter (changed (p # ps)) (seg fs (i1 + 1) i') = filter (changed ps) (seg fs (i1 + 1) i')"
    proof (rule filter_cong [OF refl])
      fix f assume "f \<in> set (seg fs (i1 + 1) i')"
      then obtain j where j: "i1 + 1 \<le> j" "j < length fs" "f = fs ! j" by (rule in_segE)
      then have "path p < path f" using mono [of i1 j] True by simp
      then show "changed (p # ps) f = changed ps f" by (auto simp: changed_Cons)
    qed
    have "seg fs i i' = seg fs i i1 @ [?c] @ seg fs (i1 + 1) i'"
      using s(1) ih(1) lt seg_split [of i i1 i' fs] seg_split [of i1 "i1 + 1" i' fs]
      by (simp add: seg_one)
    then have "r' = r @ map path (filter (changed (p # ps)) (seg fs i i'))"
      using front rest c ih(2) s(2) by (simp add: r2_def)
    moreover have "path q < path (fs ! j)" if "i' \<le> j" "j < length fs" "q \<in> set (p # ps)" for j q
    proof (cases "q = p")
      case True
      have "path ?c < path (fs ! j)" using that ih(1) by (intro mono) simp_all
      then show ?thesis using True \<open>path ?c = path p\<close> by simp
    next
      case False
      then show ?thesis using that ih(3) by simp
    qed
    ultimately show ?thesis using s(1) ih(1) by auto
  next
    case False
    then have gt: "path p < path ?c" using s(4) [OF lt] by simp
    have run: "getChanges_loop fs ps i1 r1 = Inr (i', r')"
      using Cons.prems(2) unfolding getChanges_loop_Cons [OF skip]
      using lt False by simp
    from Cons.IH [OF ps run]
    have ih: "i1 \<le> i'" "r' = r1 @ map path (filter (changed ps) (seg fs i1 i'))"
      "\<And>j q. i' \<le> j \<Longrightarrow> j < length fs \<Longrightarrow> q \<in> set ps \<Longrightarrow> path q < path (fs ! j)"
      by auto
    have above_p: "path p < path (fs ! j)" if "i1 \<le> j" "j < length fs" for j
      using that gt mono [of i1 j] by (cases "j = i1") (auto intro: less_trans)
    have rest: "filter (changed (p # ps)) (seg fs i1 i') = filter (changed ps) (seg fs i1 i')"
    proof (rule filter_cong [OF refl])
      fix f assume "f \<in> set (seg fs i1 i')"
      then obtain j where j: "i1 \<le> j" "j < length fs" "f = fs ! j" by (rule in_segE)
      then have "path p < path f" using above_p by simp
      then show "changed (p # ps) f = changed ps f" by (auto simp: changed_Cons)
    qed
    have "seg fs i i' = seg fs i i1 @ seg fs i1 i'"
      using s(1) ih(1) by (rule seg_split)
    then have "r' = r @ map path (filter (changed (p # ps)) (seg fs i i'))"
      using front rest ih(2) s(2) by simp
    moreover have "path q < path (fs ! j)" if "i' \<le> j" "j < length fs" "q \<in> set (p # ps)" for j q
      using that ih(1,3) above_p by (cases "q = p") auto
    ultimately show ?thesis using s(1) ih(1) by auto
  qed
qed

lemma getChanges_diff:
  assumes "by_path fs" "by_path ps" "getChanges fs ps = Inr result"
  shows "result = map path (filter (changed ps) fs)"
proof -
  obtain i' r' where loop: "getChanges_loop fs ps 0 [] = Inr (i', r')"
    and res: "result = getChanges_rest fs i' r'"
    using assms(3) by (auto simp: getChanges_def split: sum.splits)
  from getChanges_loop_eq [OF assms(1,2) loop]
  have l: "r' = map path (filter (changed ps) (seg fs 0 i'))"
    "\<And>j q. i' \<le> j \<Longrightarrow> j < length fs \<Longrightarrow> q \<in> set ps \<Longrightarrow> path q < path (fs ! j)"
    by auto
  have "filter (changed ps) (drop i' fs) = drop i' fs"
  proof (rule filter_True, rule ballI)
    fix f assume "f \<in> set (drop i' fs)"
    then obtain k where "k < length fs - i'" "f = fs ! (i' + k)"
      by (auto simp: in_set_conv_nth)
    then show "changed ps f" using l(2) [of "i' + k"] by (intro changed_below) simp
  qed
  moreover have "fs = seg fs 0 i' @ drop i' fs" by (simp add: seg_def)
  ultimately have "filter (changed ps) fs = filter (changed ps) (seg fs 0 i') @ drop i' fs"
    by (metis filter_append)
  then show ?thesis using res l(1) by (simp add: getChanges_rest_eq)
qed

text \<open>
  C3. The claim: every access \<^verbatim>\<open>getChanges\<close> makes to the list of current files is in
  bounds, also the one guarded only by the path comparison when the current list is exhausted
  while pack entries remain. The code at such an input: with no current file and one pack
  entry, the inner loop ends at once with \<^verbatim>\<open>fileIt == files.size() == 0\<close> and the comparison
  \<^verbatim>\<open>files[0].path == pf.path\<close> reads past the end of the empty vector.
\<close>

theorem C3_getChanges_reads_past_end:
  "getChanges [] [\<lparr>path = ''a.txt'', FileInfo.timeStamp = 1, FileInfo.fileSize = 10\<rparr>]
     = Inl OutOfBounds"
  by (simp add: getChanges_def getChanges_loop.simps(2) getChanges_skip_stop)

text \<open>
  C5. The claim: for every pair of sorted lists the diff returns the paths that are only in
  the current list and the paths in both whose time stamp or size differs, in the order of
  the current list. The code at the sorted lists current = [a.txt], pack = [z.txt]: the
  inner loop reports a.txt and leaves \<^verbatim>\<open>fileIt == 1 == files.size()\<close>; the comparison with
  the pack entry then reads \<^verbatim>\<open>files[1]\<close>, past the end, and no list [a.txt] is returned.
  Where the code stays in bounds, \<open>getChanges_diff\<close> above shows that it returns the diff.
\<close>

theorem C5_getChanges_pack_path_beyond_current:
  "getChanges [\<lparr>path = ''a.txt'', FileInfo.timeStamp = 1, FileInfo.fileSize = 10\<rparr>]
              [\<lparr>path = ''z.txt'', FileInfo.timeStamp = 2, FileInfo.fileSize = 20\<rparr>]
     = Inl OutOfBounds"
  by (simp add: getChanges_def getChanges_loop.simps(2) getChanges_skip_step getChanges_skip_stop)

section \<open>The line scans\<close>

lemma newlines_in_step:
  "a < b \<Longrightarrow> newlines_in data a b = (if data a = newline then 1 else 0) + newlines_in data (Suc a) b"
  by (simp add: newlines_in_def upt_conv_Cons)

lemma newlines_in_empty [simp]: "b \<le> a \<Longrightarrow> newlines_in data a b = 0"
  by (simp add: newlines_in_def)

lemma skipByLines_loop_snd:
  "snd (skipByLines_loop data n i r) = snd r + newlines_in data i n"
proof (induction data n i r rule: skipByLines_loop.induct)
  case (1 data n i r)
  show ?case
  proof (cases "i < n")
    case True
    then show ?thesis
      using "1.IH" by (subst skipByLines_loop.simps) (simp add: newlines_in_step)
  next
    case False
    then show ?thesis by (subst skipByLines_loop.simps) simp
  qed
qed

lemma skipByLines_loop_fst:
  "fst (skipByLines_loop data n i r) = fst r
   \<or> (i < fst (skipByLines_loop data n i r) \<and> fst (skipByLines_loop data n i r) \<le> n
      \<and> data (fst (skipByLines_loop data n i r) - 1) = newline)"
proof (induction data n i r rule: skipByLines_loop.induct)
  case (1 data n i r)
  show ?case
  proof (cases "i < n")
    case True
    then show ?thesis
      using "1.IH" by (subst (1 2 3 4) skipByLines_loop.simps) (auto split: if_splits)
  next
    case False
    then show ?thesis by (subst skipByLines_loop.simps) simp
  qed
qed

lemma skipByLines_loop_last:
  "i \<le> j \<Longrightarrow> j < n \<Longrightarrow> data j = newline \<Longrightarrow> j < fst (skipByLines_loop data n i r)"
proof (induction data n i r rule: skipByLines_loop.induct)
  case (1 data n i r)
  from "1.prems" have lt: "i < n" by simp
  show ?case
  proof (cases "i = j")
    case True
    have "fst (skipByLines_loop data n (i + 1) (i + 1, snd r + 1)) = i + 1
          \<or> i + 1 < fst (skipByLines_loop data n (i + 1) (i + 1, snd r + 1))"
      using skipByLines_loop_fst [of data n "i + 1" "(i + 1, snd r + 1)"] by auto
    then show ?thesis
      using lt True "1.prems" by (subst skipByLines_loop.simps) auto
  next
    case False
    then show ?thesis
      using lt "1.prems" "1.IH" by (subst skipByLines_loop.simps) auto
  qed
qed

lemma skipByLines_le: "fst (skipByLines data n) \<le> n"
  using skipByLines_loop_fst [of data n 0 "(0, 0)"] by (auto simp: skipByLines_def)

lemma skipByLines_zero:
  "fst (skipByLines data n) = 0 \<Longrightarrow> j < n \<Longrightarrow> data j \<noteq> newline"
  using skipByLines_loop_last [of 0 j n data "(0, 0)"] by (auto simp: skipByLines_def)

lemma skipByLines_pos:
  "0 < fst (skipByLines data n) \<Longrightarrow> data (fst (skipByLines data n) - 1) = newline"
  using skipByLines_loop_fst [of data n 0 "(0, 0)"] by (auto simp: skipByLines_def)

lemma newlines_in_split:
  "a \<le> m \<Longrightarrow> m \<le> b \<Longrightarrow> newlines_in data a b = newlines_in data a m + newlines_in data m b"
proof -
  assume "a \<le> m" "m \<le> b"
  then have "[a..<b] = [a..<m] @ [m..<b]"
    by (metis le_Suc_ex upt_add_eq_append)
  then show ?thesis by (simp add: newlines_in_def)
qed

lemma newlines_in_none:
  "(\<And>j. a \<le> j \<Longrightarrow> j < b \<Longrightarrow> data j \<noteq> newline) \<Longrightarrow> newlines_in data a b = 0"
  by (simp add: newlines_in_def filter_empty_conv)

lemma skipByLines_snd:
  "snd (skipByLines data n) = newlines_in data 0 (fst (skipByLines data n))"
proof -
  let ?p = "fst (skipByLines data n)"
  have le: "?p \<le> n" by (rule skipByLines_le)
  have "newlines_in data ?p n = 0"
  proof (rule newlines_in_none)
    fix j assume "?p \<le> j" "j < n"
    then show "data j \<noteq> newline"
      using skipByLines_loop_last [of 0 j n data "(0, 0)"] by (auto simp: skipByLines_def)
  qed
  moreover have "snd (skipByLines data n) = newlines_in data 0 n"
    using skipByLines_loop_snd [of data n 0 "(0, 0)"] by (simp add: skipByLines_def)
  ultimately show ?thesis
    using newlines_in_split [of 0 ?p n data] le by simp
qed

lemma skipOneLine_loop_bounds:
  "i \<le> n \<Longrightarrow> skipOneLine_loop data n i \<le> n \<and> i \<le> skipOneLine_loop data n i
     \<and> (i < n \<longrightarrow> i < skipOneLine_loop data n i)"
proof (induction data n i rule: skipOneLine_loop.induct)
  case (1 data n i)
  show ?case
  proof (cases "i < n")
    case True
    then show ?thesis
      using "1.IH" by (subst (1 2 3) skipOneLine_loop.simps) auto
  next
    case False
    then show ?thesis using "1.prems" by (subst (1 2 3) skipOneLine_loop.simps) simp
  qed
qed

lemma skipOneLine_loop_scan:
  "i \<le> j \<Longrightarrow> j + 1 < skipOneLine_loop data n i \<Longrightarrow> data j \<noteq> newline"
proof (induction data n i rule: skipOneLine_loop.induct)
  case (1 data n i)
  show ?case
  proof (cases "i < n")
    case True
    show ?thesis
    proof (cases "data i = newline")
      case nl: True
      then have "skipOneLine_loop data n i = i + 1"
        using True by (subst skipOneLine_loop.simps) simp
      then show ?thesis using "1.prems" by simp
    next
      case nonl: False
      then have eq: "skipOneLine_loop data n i = skipOneLine_loop data n (i + 1)"
        using True by (subst skipOneLine_loop.simps) simp
      show ?thesis
      proof (cases "i = j")
        case True then show ?thesis using nonl by simp
      next
        case False
        then show ?thesis using "1.IH" [OF True nonl] "1.prems" eq by simp
      qed
    qed
  next
    case False
    then have "skipOneLine_loop data n i = n" by (subst skipOneLine_loop.simps) simp
    then show ?thesis using "1.prems" False by simp
  qed
qed

lemma skipOneLine_loop_end:
  "i \<le> n \<Longrightarrow> skipOneLine_loop data n i < n \<Longrightarrow>
   data (skipOneLine_loop data n i - 1) = newline"
proof (induction data n i rule: skipOneLine_loop.induct)
  case (1 data n i)
  show ?case
  proof (cases "i < n")
    case True
    then show ?thesis
      using "1.IH" "1.prems" by (subst (asm) (2) skipOneLine_loop.simps, subst skipOneLine_loop.simps) (auto split: if_splits)
  next
    case False
    then have "skipOneLine_loop data n i = n" by (subst skipOneLine_loop.simps) simp
    then show ?thesis using "1.prems" by simp
  qed
qed

section \<open>One cut of a chunk\<close>

lemma skipOneLine_le: "skipOneLine data n \<le> n"
  using skipOneLine_loop_bounds [of 0 n data] by (simp add: skipOneLine_def)

lemma skipOneLine_pos: "0 < n \<Longrightarrow> 0 < skipOneLine data n"
  using skipOneLine_loop_bounds [of 0 n data] by (simp add: skipOneLine_def)

lemma skipOneLine_scan: "j + 1 < skipOneLine data n \<Longrightarrow> data j \<noteq> newline"
  using skipOneLine_loop_scan [of 0 j data n] by (simp add: skipOneLine_def)

lemma skipOneLine_end: "skipOneLine data n < n \<Longrightarrow> data (skipOneLine data n - 1) = newline"
  using skipOneLine_loop_end [of 0 n data] by (simp add: skipOneLine_def)

lemma skipOneLine_beyond:
  assumes "\<And>j. j < r \<Longrightarrow> data j \<noteq> newline" and "r < n"
  shows "r < skipOneLine data n"
proof (rule ccontr)
  assume "\<not> r < skipOneLine data n"
  then have le: "skipOneLine data n \<le> r" by simp
  then have "skipOneLine data n < n" using assms(2) by simp
  then have nl: "data (skipOneLine data n - 1) = newline" by (rule skipOneLine_end)
  have "0 < skipOneLine data n" using assms(2) by (intro skipOneLine_pos) simp
  then have "skipOneLine data n - 1 < r" using le by simp
  from assms(1) [OF this] nl show False by simp
qed


lemma appendChunkFilePrefix_none:
  "fst (skipByLines (blob_data (contents f)) r) = 0 \<Longrightarrow> files c \<noteq> [] \<Longrightarrow>
   appendChunkFilePrefix c f r = (c, f)"
  by (simp add: appendChunkFilePrefix_def)

lemma appendChunkFilePrefix_lines:
  "0 < fst (skipByLines (blob_data (contents f)) r) \<Longrightarrow>
   appendChunkFilePrefix c f r =
     (let k = fst (skipByLines (blob_data (contents f)) r)
      in (c\<lparr>totalSize := totalSize c + k, files := files c @ [cut_file f k]\<rparr>,
          rest_file f k (of_nat (snd (skipByLines (blob_data (contents f)) r)))))"
  by (simp add: appendChunkFilePrefix_def splitPrefix_def Let_def cut_file_def rest_file_def)

lemma appendChunkFilePrefix_long:
  "fst (skipByLines (blob_data (contents f)) r) = 0 \<Longrightarrow> files c = [] \<Longrightarrow>
   appendChunkFilePrefix c f r =
     (let k = skipOneLine (blob_data (contents f)) (blob_size (contents f))
      in (c\<lparr>totalSize := totalSize c + k, files := files c @ [cut_file f k]\<rparr>,
          rest_file f k 1))"
  by (simp add: appendChunkFilePrefix_def splitPrefix_def Let_def cut_file_def rest_file_def)

lemma blob_size_cut [simp]: "blob_size (contents (cut_file f k)) = k"
  by (simp add: cut_file_def blob_size_def)

lemma blob_size_rest [simp]: "blob_size (contents (rest_file f k l)) = blob_size (contents f) - k"
  by (simp add: rest_file_def blob_size_def)

lemma blob_data_cut [simp]: "blob_data (contents (cut_file f k)) = blob_data (contents f)"
  by (rule ext) (simp add: cut_file_def blob_data_def)

lemma flushChunk_loop_full:
  "\<not> totalSize c < sz \<Longrightarrow> flushChunk_loop sz c (f # q) = (c, f # q)"
  by (simp add: flushChunk_loop.simps(2))

lemma flushChunk_loop_fit:
  "totalSize c < sz \<Longrightarrow> blob_size (contents f) \<le> sz - totalSize c \<Longrightarrow>
   flushChunk_loop sz c (f # q) = flushChunk_loop sz (appendChunkFile c f) q"
  by (simp add: flushChunk_loop.simps(2))

lemma flushChunk_loop_split:
  "totalSize c < sz \<Longrightarrow> \<not> blob_size (contents f) \<le> sz - totalSize c \<Longrightarrow>
   flushChunk_loop sz c (f # q) =
     (fst (appendChunkFilePrefix c f (sz - totalSize c)),
      snd (appendChunkFilePrefix c f (sz - totalSize c)) # q)"
  by (simp add: flushChunk_loop.simps(2) case_prod_beta Let_def)

lemma flushChunk_loop_cases [consumes 1, case_names stop fit split]:
  assumes run: "flushChunk_loop sz c q = (c', q')"
    and stop: "\<And>c q. q = [] \<or> \<not> totalSize c < sz \<Longrightarrow> P c q c q"
    and fit: "\<And>c f q c' q'. totalSize c < sz \<Longrightarrow> blob_size (contents f) \<le> sz - totalSize c \<Longrightarrow>
               flushChunk_loop sz (appendChunkFile c f) q = (c', q') \<Longrightarrow>
               P (appendChunkFile c f) q c' q' \<Longrightarrow> P c (f # q) c' q'"
    and split: "\<And>c f q c1 f1. totalSize c < sz \<Longrightarrow> sz - totalSize c < blob_size (contents f) \<Longrightarrow>
               appendChunkFilePrefix c f (sz - totalSize c) = (c1, f1) \<Longrightarrow> P c (f # q) c1 (f1 # q)"
  shows "P c q c' q'"
  using run
proof (induction q arbitrary: c)
  case Nil
  then show ?case using stop [of "[]" c] by simp
next
  case (Cons f q)
  show ?case
  proof (cases "totalSize c < sz")
    case False
    then show ?thesis using Cons.prems stop [of "f # q" c] by (simp add: flushChunk_loop_full)
  next
    case True
    show ?thesis
    proof (cases "blob_size (contents f) \<le> sz - totalSize c")
      case fits: True
      then have "flushChunk_loop sz (appendChunkFile c f) q = (c', q')"
        using Cons.prems True by (simp add: flushChunk_loop_fit)
      then show ?thesis using fit True fits Cons.IH by blast
    next
      case nofit: False
      obtain c1 f1 where ap: "appendChunkFilePrefix c f (sz - totalSize c) = (c1, f1)"
        by (cases "appendChunkFilePrefix c f (sz - totalSize c)")
      then have "c' = c1" "q' = f1 # q"
        using Cons.prems True nofit by (simp_all add: flushChunk_loop_split)
      then show ?thesis using split [OF True _ ap] nofit by simp
    qed
  qed
qed

text \<open>What a split does, by cases.\<close>

lemma appendChunkFilePrefix_cases [consumes 1, case_names none lines long]:
  assumes ap: "appendChunkFilePrefix c f r = (c', f')"
    and none: "fst (skipByLines (blob_data (contents f)) r) = 0 \<Longrightarrow> files c \<noteq> [] \<Longrightarrow>
               c' = c \<Longrightarrow> f' = f \<Longrightarrow> R"
    and lines: "\<And>k. k = fst (skipByLines (blob_data (contents f)) r) \<Longrightarrow> 0 < k \<Longrightarrow> k \<le> r \<Longrightarrow>
               c' = c\<lparr>totalSize := totalSize c + k, files := files c @ [cut_file f k]\<rparr> \<Longrightarrow>
               f' = rest_file f k (of_nat (newlines_in (blob_data (contents f)) 0 k)) \<Longrightarrow>
               blob_data (contents f) (k - 1) = newline \<Longrightarrow> R"
    and long: "\<And>k. k = skipOneLine (blob_data (contents f)) (blob_size (contents f)) \<Longrightarrow>
               files c = [] \<Longrightarrow> (\<And>j. j < r \<Longrightarrow> blob_data (contents f) j \<noteq> newline) \<Longrightarrow>
               c' = c\<lparr>totalSize := totalSize c + k, files := files c @ [cut_file f k]\<rparr> \<Longrightarrow>
               f' = rest_file f k 1 \<Longrightarrow> R"
  shows R
proof (cases "0 < fst (skipByLines (blob_data (contents f)) r)")
  case True
  show ?thesis
  proof (rule lines [OF refl True])
    show "fst (skipByLines (blob_data (contents f)) r) \<le> r" by (rule skipByLines_le)
    show "blob_data (contents f) (fst (skipByLines (blob_data (contents f)) r) - 1) = newline"
      by (rule skipByLines_pos [OF True])
  qed (use ap True in \<open>auto simp: appendChunkFilePrefix_lines Let_def skipByLines_snd\<close>)
next
  case False
  then have zero: "fst (skipByLines (blob_data (contents f)) r) = 0" by simp
  show ?thesis
  proof (cases "files c = []")
    case True
    show ?thesis
    proof (rule long [OF refl True])
      fix j assume "j < r"
      then show "blob_data (contents f) j \<noteq> newline" by (rule skipByLines_zero [OF zero])
    qed (use ap zero True in \<open>auto simp: appendChunkFilePrefix_long Let_def\<close>)
  next
    case nonempty: False
    show ?thesis
      by (rule none [OF zero nonempty]) (use ap zero nonempty in \<open>auto simp: appendChunkFilePrefix_none\<close>)
  qed
qed

lemma pending_bytes_Cons [simp]:
  "pending_bytes (f # fs) = blob_size (contents f) + pending_bytes fs"
  by (simp add: pending_bytes_def)

lemma pending_bytes_Nil [simp]: "pending_bytes [] = 0"
  by (simp add: pending_bytes_def)

lemma pending_bytes_append [simp]:
  "pending_bytes (xs @ ys) = pending_bytes xs + pending_bytes ys"
  by (simp add: pending_bytes_def)

lemma getChunkDataTotalSize_bytes: "getChunkDataTotalSize c = pending_bytes (files c)"
  by (simp add: getChunkDataTotalSize_def pending_bytes_def)

text \<open>Bytes are conserved by the loop.\<close>

lemma flushChunk_loop_bytes:
  assumes "flushChunk_loop sz c q = (c', q')"
  shows "totalSize c' + pending_bytes q' = totalSize c + pending_bytes q"
  using assms
proof (induction rule: flushChunk_loop_cases)
  case (stop c q)
  show ?case by simp
next
  case (fit c f q c' q')
  then show ?case by (simp add: appendChunkFile_def)
next
  case (split c f q c1 f1)
  from split(3) show ?case
  proof (cases rule: appendChunkFilePrefix_cases)
    case none
    then show ?thesis by simp
  next
    case (lines k)
    then show ?thesis using split(2) by simp
  next
    case (long k)
    then show ?thesis using skipOneLine_le [of "blob_data (contents f)" "blob_size (contents f)"]
      by simp
  qed
qed

lemma flushChunk_loop_sum:
  assumes "flushChunk_loop sz c q = (c', q')" "totalSize c = pending_bytes (files c)"
  shows "totalSize c' = pending_bytes (files c')"
  using assms
proof (induction rule: flushChunk_loop_cases)
  case (stop c q)
  then show ?case by simp
next
  case (fit c f q c' q')
  then show ?case by (simp add: appendChunkFile_def)
next
  case (split c f q c1 f1)
  from split(3) show ?case
    by (cases rule: appendChunkFilePrefix_cases) (use split(4) in auto)
qed

lemma flushChunk_loop_length:
  assumes "flushChunk_loop sz c q = (c', q')"
  shows "length q' \<le> length q"
  using assms
  by (induction rule: flushChunk_loop_cases) auto

lemma flushChunk_loop_files_mono:
  assumes "flushChunk_loop sz c q = (c', q')" "files c \<noteq> []"
  shows "files c' \<noteq> []"
  using assms
proof (induction rule: flushChunk_loop_cases)
  case (stop c q)
  then show ?case by simp
next
  case (fit c f q c' q')
  then show ?case by (simp add: appendChunkFile_def)
next
  case (split c f q c1 f1)
  from split(3) show ?case
    by (cases rule: appendChunkFilePrefix_cases) (use split(4) in auto)
qed

text \<open>A cut from a non-empty queue with a positive budget makes progress.\<close>

lemma flushChunk_loop_progress:
  assumes "flushChunk_loop sz \<lparr>files = [], totalSize = 0\<rparr> q = (c', q')" "0 < sz" "q \<noteq> []"
  shows "files c' \<noteq> [] \<and> (0 < totalSize c' \<or> length q' < length q)"
proof -
  obtain f q0 where q: "q = f # q0" using assms(3) by (cases q) auto
  let ?c = "\<lparr>files = [], totalSize = 0\<rparr>"
  show ?thesis
  proof (cases "blob_size (contents f) \<le> sz")
    case True
    then have loop: "flushChunk_loop sz (appendChunkFile ?c f) q0 = (c', q')"
      using assms(1,2) q by (simp add: flushChunk_loop_fit)
    have "files c' \<noteq> []"
      by (rule flushChunk_loop_files_mono [OF loop]) (simp add: appendChunkFile_def)
    moreover have "length q' \<le> length q0" by (rule flushChunk_loop_length [OF loop])
    ultimately show ?thesis using q by simp
  next
    case False
    then have big: "sz < blob_size (contents f)" by simp
    obtain c1 f1 where ap: "appendChunkFilePrefix ?c f sz = (c1, f1)"
      by (cases "appendChunkFilePrefix ?c f sz")
    then have res: "c' = c1" "q' = f1 # q0"
      using assms(1,2) q False by (simp_all add: flushChunk_loop_split)
    from ap show ?thesis
    proof (cases rule: appendChunkFilePrefix_cases)
      case none
      then show ?thesis by simp
    next
      case (lines k)
      then show ?thesis using res by simp
    next
      case (long k)
      moreover have "0 < skipOneLine (blob_data (contents f)) (blob_size (contents f))"
        using big by (intro skipOneLine_pos) simp
      ultimately show ?thesis using res by simp
    qed
  qed
qed

section \<open>The flush loops\<close>

lemma flushChunk_store_pending [simp]:
  "pendingFiles (flushChunk_store E c st) = pendingFiles st"
  "pendingSize (flushChunk_store E c st) = pendingSize st"
  by (simp_all add: flushChunk_store_def writeChunk_def Let_def)

lemma flushChunk_store_flushed:
  "flushed (flushChunk_store E c st) = (if files c = [] then flushed st else flushed st @ [c])"
  by (simp add: flushChunk_store_def writeChunk_def Let_def)

lemma flushChunk_eq:
  "flushChunk_loop sz \<lparr>files = [], totalSize = 0\<rparr> (pendingFiles st) = (c, q) \<Longrightarrow>
   flushChunk E sz st =
     flushChunk_store E c (st\<lparr>pendingFiles := q, pendingSize := pendingSize st - totalSize c\<rparr>)"
  by (simp add: flushChunk_def)

lemma flushChunk_count_ok:
  assumes "count_ok st"
  shows "count_ok (flushChunk E sz st)"
proof -
  obtain c q where loop: "flushChunk_loop sz \<lparr>files = [], totalSize = 0\<rparr> (pendingFiles st) = (c, q)"
    by (cases "flushChunk_loop sz \<lparr>files = [], totalSize = 0\<rparr> (pendingFiles st)")
  from flushChunk_loop_bytes [OF loop] assms show ?thesis
    by (simp add: flushChunk_eq [OF loop] count_ok_def)
qed

lemma flushChunk_measure:
  assumes "count_ok st" "0 < sz" "0 < pendingSize st"
  shows "pendingSize (flushChunk E sz st) + length (pendingFiles (flushChunk E sz st))
         < pendingSize st + length (pendingFiles st)"
proof -
  obtain c q where loop: "flushChunk_loop sz \<lparr>files = [], totalSize = 0\<rparr> (pendingFiles st) = (c, q)"
    by (cases "flushChunk_loop sz \<lparr>files = [], totalSize = 0\<rparr> (pendingFiles st)")
  have ne: "pendingFiles st \<noteq> []" using assms(1,3) by (auto simp: count_ok_def)
  have bytes: "totalSize c + pending_bytes q = pendingSize st"
    using flushChunk_loop_bytes [OF loop] assms(1) by (simp add: count_ok_def)
  have "0 < totalSize c \<or> length q < length (pendingFiles st)"
    using flushChunk_loop_progress [OF loop assms(2) ne] by simp
  moreover have "length q \<le> length (pendingFiles st)" by (rule flushChunk_loop_length [OF loop])
  ultimately show ?thesis using bytes by (auto simp: flushChunk_eq [OF loop])
qed

text \<open>Both loops end on a builder whose byte count is right, and keep what every cut keeps.\<close>

lemma flush_ends:
  assumes pos: "0 < kChunkSize E"
    and step: "\<And>s. count_ok s \<Longrightarrow> I s \<Longrightarrow> I (flushChunk E (kChunkSize E) s)"
  shows "count_ok st \<Longrightarrow> I st \<Longrightarrow>
         \<exists>st'. flush E st = Some st' \<and> count_ok st' \<and> I st' \<and> pendingSize st' = 0"
proof (induction "pendingSize st + length (pendingFiles st)" arbitrary: st rule: less_induct)
  case less
  show ?case
  proof (cases "0 < pendingSize st")
    case False
    then show ?thesis using less.prems by (subst flush.simps) simp
  next
    case True
    let ?s = "flushChunk E (kChunkSize E) st"
    have "\<exists>st'. flush E ?s = Some st' \<and> count_ok st' \<and> I st' \<and> pendingSize st' = 0"
      using less.prems True pos
      by (intro less.hyps flushChunk_measure flushChunk_count_ok step)
    then show ?thesis using True by (subst flush.simps) simp
  qed
qed

lemma flushIfNeeded_ends:
  assumes pos: "0 < kChunkSize E"
    and step: "\<And>s. count_ok s \<Longrightarrow> I s \<Longrightarrow> I (flushChunk E (kChunkSize E) s)"
  shows "count_ok st \<Longrightarrow> I st \<Longrightarrow>
         \<exists>st'. flushIfNeeded E st = Some st' \<and> count_ok st' \<and> I st'"
proof (induction "pendingSize st + length (pendingFiles st)" arbitrary: st rule: less_induct)
  case less
  show ?case
  proof (cases "kChunkSize E * 2 \<le> pendingSize st")
    case False
    then show ?thesis using less.prems by (subst flushIfNeeded.simps) simp
  next
    case True
    let ?s = "flushChunk E (kChunkSize E) st"
    have "0 < pendingSize st" using True pos by simp
    then have "\<exists>st'. flushIfNeeded E ?s = Some st' \<and> count_ok st' \<and> I st'"
      using less.prems pos
      by (intro less.hyps flushChunk_measure flushChunk_count_ok step)
    then show ?thesis using True by (subst flushIfNeeded.simps) simp
  qed
qed

section \<open>The payload and the header of a written chunk\<close>

lemma flushIfNeeded_below:
  "pendingSize st < kChunkSize E * 2 \<Longrightarrow> flushIfNeeded E st = Some st"
  by (subst flushIfNeeded.simps) simp

lemma flush_nothing_pending: "pendingSize st = 0 \<Longrightarrow> flush E st = Some st"
  by (subst flush.simps) simp

lemma flush_step:
  "0 < pendingSize st \<Longrightarrow> flush E st = flush E (flushChunk E (kChunkSize E) st)"
  by (subst flush.simps) simp

lemma length_copy_to:
  "pos + length src \<le> length dest \<Longrightarrow> length (copy_to dest pos src) = length dest"
  by (simp add: copy_to_def)

lemma length_blob_bytes: "length (blob_bytes b) \<le> blob_size b"
  by (simp add: blob_bytes_def blob_size_def)

lemma prepareChunkData_loop_table:
  "length (fileTable (prepareChunkData_loop hs fs i no do d)) = length (fileTable d)"
  by (induction fs arbitrary: i no "do" d) simp_all

lemma prepareChunkData_loop_tail:
  "hs \<le> no \<Longrightarrow> no - hs + sum_list (map (\<lambda>f. length (name f)) fs) \<le> length (tailBytes d) \<Longrightarrow>
   hs \<le> do \<Longrightarrow> do - hs + pending_bytes fs \<le> length (tailBytes d) \<Longrightarrow>
   length (tailBytes (prepareChunkData_loop hs fs i no do d)) = length (tailBytes d)"
proof (induction fs arbitrary: i no "do" d)
  case Nil
  then show ?case by simp
next
  case (Cons f fs)
  have len: "length (blob_bytes (contents f)) \<le> blob_size (contents f)" by (rule length_blob_bytes)
  let ?t = "copy_to (copy_to (tailBytes d) (no - hs) (name f)) (do - hs) (blob_bytes (contents f))"
  have t: "length ?t = length (tailBytes d)"
    using Cons.prems len by (simp add: length_copy_to pending_bytes_def)
  show ?case
    using Cons.prems t by (simp add: Cons.IH pending_bytes_def)
qed

lemma data_size_prepareChunkData:
  "data_size E (prepareChunkData E c) =
   sizeofDataChunkFileHeader E * length (files c) + getChunkNameTotalSize c + getChunkDataTotalSize c"
  by (simp add: data_size_def prepareChunkData_def Let_def prepareChunkData_loop_table
      prepareChunkData_loop_tail getChunkNameTotalSize_def getChunkDataTotalSize_def pending_bytes_def)

lemma length_tail_prepareChunkData:
  "length (tailBytes (prepareChunkData E c)) = getChunkNameTotalSize c + getChunkDataTotalSize c"
  by (simp add: prepareChunkData_def Let_def
      prepareChunkData_loop_tail getChunkNameTotalSize_def getChunkDataTotalSize_def pending_bytes_def)

lemma header_flushChunk_store:
  "files c \<noteq> [] \<Longrightarrow>
   outData (flushChunk_store E c st) =
     outData st @
     [\<lparr>header = \<lparr>DataChunkHeader.fileCount = length (files c),
                  uncompressedSize = sizeofDataChunkFileHeader E * length (files c)
                                      + getChunkNameTotalSize c + getChunkDataTotalSize c,
                  compressedSize = length (compressData E (prepareChunkData E c)),
                  indexSize = indexBytes (fst (prepareChunkIndex E c)),
                  indexHashIterations = snd (prepareChunkIndex E c),
                  fileTableSize = 0, extraSize = 0\<rparr>,
       index = fst (prepareChunkIndex E c),
       cdata = compressData E (prepareChunkData E c)\<rparr>]"
  by (simp add: flushChunk_store_def writeChunk_def Let_def data_size_prepareChunkData)

text \<open>
  C1. The claim: in every chunk the builder writes, the header's \<^verbatim>\<open>fileTableSize\<close> is the
  length of the file table plus all name bytes, the prefix that the reader asks
  \<^verbatim>\<open>decompressPartial\<close> for. The code: \<^verbatim>\<open>writeChunk\<close> zero-initialises the header and never
  assigns \<^verbatim>\<open>fileTableSize\<close>. For the one file a.txt with the three bytes h, i and a newline, and a chunk
  size of 512 KiB, the chunk written has one file and \<^verbatim>\<open>fileTableSize\<close> 0, while its file
  table and names take 40 + 5 = 45 bytes.
\<close>

theorem C1_fileTableSize_not_written:
  "map_option (map (\<lambda>c. (DataChunkHeader.fileCount (header c), fileTableSize (header c))) \<circ> outData)
     (calls (testExt 524288)
        [AppendFilePart ''a.txt'' 0 [CHR ''h'', CHR ''i'', newline] 7 3, Flush] BuilderImpl_start)
   = Some [(1, 0)]
   \<and> map_option
       (map (\<lambda>c. sizeofDataChunkFileHeader (testExt 524288) * length (files c)
                 + getChunkNameTotalSize c) \<circ> flushed)
       (calls (testExt 524288)
          [AppendFilePart ''a.txt'' 0 [CHR ''h'', CHR ''i'', newline] 7 3, Flush] BuilderImpl_start)
     = Some [45]"
  by (simp add: appendFilePart_def flushIfNeeded_below flush_nothing_pending flush_step testExt_def
      BuilderImpl_start_def flushChunk_def flushChunk_loop_fit appendChunkFile_def blob_size_def
      Blob_of_def header_flushChunk_store flushChunk_store_flushed getChunkNameTotalSize_def)

text \<open>
  C4. The claim: appending one file of length zero and flushing gives a pack with one chunk
  that has one file entry with \<^verbatim>\<open>data_size\<close> 0, \<^verbatim>\<open>index_size\<close> 0 and no ngrams. The code:
  \<^verbatim>\<open>flush\<close> loops while \<^verbatim>\<open>pendingSize > 0\<close>; the empty file adds no byte, so no chunk is
  cut or written and the file stays in the pending list.
\<close>

theorem C4_empty_file_is_not_written:
  "map_option (\<lambda>st. (outData st, flushed st, map name (pendingFiles st), pendingSize st))
     (calls (testExt 524288) [AppendFilePart ''a.txt'' 0 [] 7 0, Flush] BuilderImpl_start)
   = Some ([], [], [''a.txt''], 0)"
  by (simp add: appendFilePart_def flushIfNeeded_below flush_nothing_pending testExt_def
      BuilderImpl_start_def)

section \<open>Reading a written chunk back\<close>

lemma length_entries [simp]: "length (entries no do fs) = length fs"
  by (induction fs arbitrary: no "do") simp_all

lemma length_names_of: "length (names_of fs) = sum_list (map (\<lambda>f. length (name f)) fs)"
  by (induction fs) (simp_all add: names_of_def)

lemma names_of_Cons [simp]: "names_of (f # fs) = name f @ names_of fs"
  by (simp add: names_of_def)

lemma names_of_Nil [simp]: "names_of [] = []"
  by (simp add: names_of_def)

lemma prepareChunkData_loop_fileTable:
  "i + length fs \<le> length (fileTable d) \<Longrightarrow>
   fileTable (prepareChunkData_loop hs fs i no do d)
   = take i (fileTable d) @ entries no do fs @ drop (i + length fs) (fileTable d)"
proof (induction fs arbitrary: i no "do" d)
  case Nil
  then show ?case by simp
next
  case (Cons f fs)
  let ?e = "\<lparr>nameOffset = no, nameLength = length (name f), dataOffset = do,
      dataSize = blob_size (contents f), DataChunkFileHeader.startLine = File.startLine f,
      reserved = 0, DataChunkFileHeader.fileSize = File.fileSize f,
      DataChunkFileHeader.timeStamp = File.timeStamp f\<rparr>"
  let ?t = "(fileTable d)[i := ?e]"
  have i: "i < length (fileTable d)" using Cons.prems by simp
  have t: "?t = take i (fileTable d) @ ?e # drop (Suc i) (fileTable d)"
    using i by (rule upd_conv_take_nth_drop)
  have "take (i + 1) ?t = take i (fileTable d) @ [?e]"
    using i by (simp add: t)
  moreover have "drop (i + 1 + length fs) ?t = drop (i + length (f # fs)) (fileTable d)"
    by simp
  ultimately show ?case
    using Cons.prems by (simp add: Cons.IH)
qed

lemma take_copy_to_before:
  "m \<le> pos \<Longrightarrow> pos \<le> length dest \<Longrightarrow> take m (copy_to dest pos src) = take m dest"
  by (simp add: copy_to_def min_def)

lemma take_copy_to_at:
  "pos + length src \<le> length dest \<Longrightarrow>
   take (pos + length src) (copy_to dest pos src) = take pos dest @ src"
  by (simp add: copy_to_def)

lemma prepareChunkData_loop_names:
  "hs \<le> no \<Longrightarrow> no - hs + length (names_of fs) \<le> do - hs \<Longrightarrow>
   hs \<le> do \<Longrightarrow> do - hs + pending_bytes fs \<le> length (tailBytes d) \<Longrightarrow>
   take (no - hs + length (names_of fs)) (tailBytes (prepareChunkData_loop hs fs i no do d))
   = take (no - hs) (tailBytes d) @ names_of fs"
proof (induction fs arbitrary: i no "do" d)
  case Nil
  then show ?case by simp
next
  case (Cons f fs)
  let ?a = "no - hs"
  let ?t0 = "tailBytes d"
  let ?t1 = "copy_to ?t0 ?a (name f)"
  let ?t2 = "copy_to ?t1 (do - hs) (blob_bytes (contents f))"
  have len: "length (blob_bytes (contents f)) \<le> blob_size (contents f)" by (rule length_blob_bytes)
  have l1: "length ?t1 = length ?t0"
    using Cons.prems by (intro length_copy_to) simp
  have l2: "length ?t2 = length ?t0"
    using Cons.prems len l1 by (simp add: length_copy_to)
  have "take (?a + length (name f)) ?t2 = take (?a + length (name f)) ?t1"
    using Cons.prems l1 by (intro take_copy_to_before) simp_all
  also have "\<dots> = take ?a ?t0 @ name f"
    using Cons.prems by (intro take_copy_to_at) simp
  finally have pre: "take (?a + length (name f)) ?t2 = take ?a ?t0 @ name f" .
  let ?d = "d\<lparr>fileTable := (fileTable d)
                [i := \<lparr>nameOffset = no, nameLength = length (name f),
                       dataOffset = do, dataSize = blob_size (contents f),
                       DataChunkFileHeader.startLine = File.startLine f, reserved = 0,
                       DataChunkFileHeader.fileSize = File.fileSize f,
                       DataChunkFileHeader.timeStamp = File.timeStamp f\<rparr>],
             tailBytes := ?t2\<rparr>"
  have "take (no + length (name f) - hs + length (names_of fs))
          (tailBytes (prepareChunkData_loop hs fs (i + 1) (no + length (name f))
             (do + blob_size (contents f)) ?d))
        = take (no + length (name f) - hs) (tailBytes ?d) @ names_of fs"
    using Cons.prems l2 by (intro Cons.IH) simp_all
  moreover have "no + length (name f) - hs = ?a + length (name f)"
    using Cons.prems by simp
  ultimately show ?case using pre by (simp add: add.assoc)
qed

lemma entries_nth:
  "j < length fs \<Longrightarrow>
   entries no do fs ! j =
     \<lparr>nameOffset = no + length (names_of (take j fs)), nameLength = length (name (fs ! j)),
      dataOffset = do + pending_bytes (take j fs), dataSize = blob_size (contents (fs ! j)),
      DataChunkFileHeader.startLine = File.startLine (fs ! j), reserved = 0,
      DataChunkFileHeader.fileSize = File.fileSize (fs ! j),
      DataChunkFileHeader.timeStamp = File.timeStamp (fs ! j)\<rparr>"
proof (induction fs arbitrary: j no "do")
  case Nil
  then show ?case by simp
next
  case (Cons f fs)
  show ?case
  proof (cases j)
    case 0
    then show ?thesis by simp
  next
    case (Suc k)
    then have "k < length fs" using Cons.prems by simp
    from Cons.IH [OF this] show ?thesis using Suc by (simp add: add.assoc)
  qed
qed

lemma names_of_append [simp]: "names_of (xs @ ys) = names_of xs @ names_of ys"
  by (simp add: names_of_def)

lemma name_in_names:
  assumes "j < length fs"
  shows "take (length (name (fs ! j))) (drop (length (names_of (take j fs))) (names_of fs))
         = name (fs ! j)"
    and "length (names_of (take j fs)) + length (name (fs ! j)) \<le> length (names_of fs)"
proof -
  have "fs = take j fs @ fs ! j # drop (Suc j) fs" using assms by (rule id_take_nth_drop)
  then have "names_of fs = names_of (take j fs) @ name (fs ! j) @ names_of (drop (Suc j) fs)"
    by (metis names_of_append names_of_Cons)
  then show "take (length (name (fs ! j))) (drop (length (names_of (take j fs))) (names_of fs))
         = name (fs ! j)"
    and "length (names_of (take j fs)) + length (name (fs ! j)) \<le> length (names_of fs)"
    by simp_all
qed

lemma infos_of_drop:
  "i < length fs \<Longrightarrow>
   infos_of (drop i fs) =
     (if File.startLine (fs ! i) = 0
      then [\<lparr>path = name (fs ! i), FileInfo.timeStamp = File.timeStamp (fs ! i),
              FileInfo.fileSize = File.fileSize (fs ! i)\<rparr>]
      else []) @ infos_of (drop (Suc i) fs)"
  by (simp add: infos_of_def Cons_nth_drop_Suc [symmetric])

lemma processChunk_loop_stop:
  "\<not> i < n \<Longrightarrow> processChunk_loop hs result d n i = Inr result"
  by (subst processChunk_loop.simps) simp

lemma processChunk_loop_entries:
  assumes table: "fileTable d = entries hs do fs"
    and names: "take (length (names_of fs)) (tailBytes d) = names_of fs"
  shows "i \<le> length fs \<Longrightarrow>
         processChunk_loop hs result d (length fs) i = Inr (result @ infos_of (drop i fs))"
proof (induction "length fs - i" arbitrary: i result)
  case 0
  then show ?case by (simp add: processChunk_loop_stop infos_of_def)
next
  case (Suc k)
  then have lt: "i < length fs" by simp
  let ?A = "length (names_of (take i fs))"
  let ?len = "length (name (fs ! i))"
  have N: "length (names_of fs) \<le> length (tailBytes d)"
    using arg_cong [OF names, of length] by simp
  have fit: "?A + ?len \<le> length (names_of fs)" by (rule name_in_names(2) [OF lt])
  have "take ?len (drop ?A (tailBytes d))
        = take ?len (drop ?A (take (length (names_of fs)) (tailBytes d)))"
    using fit by (simp add: drop_take min_def)
  then have slice: "take ?len (drop ?A (tailBytes d)) = name (fs ! i)"
    using names name_in_names(1) [OF lt] by simp
  have rn: "read_name hs d (hs + ?A) ?len = Inr (name (fs ! i))"
    using fit N slice by (simp add: read_name_def)
  have e: "fileTable d ! i = entries hs do fs ! i" using table by simp
  have step: "processChunk_loop hs result d (length fs) i =
        processChunk_loop hs
          (result @ (if File.startLine (fs ! i) = 0
                     then [\<lparr>path = name (fs ! i), FileInfo.timeStamp = File.timeStamp (fs ! i),
                             FileInfo.fileSize = File.fileSize (fs ! i)\<rparr>]
                     else []))
          d (length fs) (i + 1)"
    using lt rn
    by (subst processChunk_loop.simps) (simp add: table entries_nth Let_def)
  have "processChunk_loop hs
          (result @ (if File.startLine (fs ! i) = 0
                     then [\<lparr>path = name (fs ! i), FileInfo.timeStamp = File.timeStamp (fs ! i),
                             FileInfo.fileSize = File.fileSize (fs ! i)\<rparr>]
                     else []))
          d (length fs) (i + 1)
        = Inr ((result @ (if File.startLine (fs ! i) = 0
                     then [\<lparr>path = name (fs ! i), FileInfo.timeStamp = File.timeStamp (fs ! i),
                             FileInfo.fileSize = File.fileSize (fs ! i)\<rparr>]
                     else [])) @ infos_of (drop (i + 1) fs))"
    using Suc.hyps(2) lt by (intro Suc.hyps(1)) simp_all
  then show ?case
    unfolding step using infos_of_drop [OF lt] by simp
qed

lemma processChunk_prepareChunkData:
  "processChunk (sizeofDataChunkFileHeader E) result (prepareChunkData E c) (length (files c))
   = Inr (result @ infos_of (files c))"
proof -
  let ?fs = "files c"
  let ?hs = "sizeofDataChunkFileHeader E * length ?fs"
  let ?N = "getChunkNameTotalSize c"
  let ?d0 = "\<lparr>fileTable = replicate (length ?fs) zero_entry,
             tailBytes = replicate (?N + getChunkDataTotalSize c) (CHR 0x00)\<rparr>"
  have N: "?N = length (names_of ?fs)"
    by (simp add: getChunkNameTotalSize_def length_names_of)
  have D: "getChunkDataTotalSize c = pending_bytes ?fs"
    by (simp add: getChunkDataTotalSize_def pending_bytes_def)
  have d: "prepareChunkData E c = prepareChunkData_loop ?hs ?fs 0 ?hs (?hs + ?N) ?d0"
    by (simp add: prepareChunkData_def Let_def)
  have table: "fileTable (prepareChunkData E c) = entries ?hs (?hs + ?N) ?fs"
    unfolding d by (subst prepareChunkData_loop_fileTable) simp_all
  have "take (?hs - ?hs + length (names_of ?fs)) (tailBytes (prepareChunkData E c))
        = take (?hs - ?hs) (tailBytes ?d0) @ names_of ?fs"
    unfolding d by (rule prepareChunkData_loop_names) (simp_all add: N D)
  then have names: "take (length (names_of ?fs)) (tailBytes (prepareChunkData E c)) = names_of ?fs"
    by simp
  show ?thesis
    unfolding processChunk_def
    using processChunk_loop_entries [OF table names, of 0 result] by simp
qed

text \<open>
  C2. The claim: after any appends and a flush, scanning the pack gives the triples (name,
  time stamp, file size) of exactly the entries appended with start line 0. The code, for
  one appended file of length zero: the pack has no chunk (see C4), so the scan gives the
  empty list, whatever \<^verbatim>\<open>decompressPartial\<close> does, and not the triple of a.txt. For a chunk
  that is written, \<open>processChunk_prepareChunkData\<close> above shows that the table and the names
  are read back as the triples of its files with start line 0, once they are decompressed.
\<close>

theorem C2_scan_misses_empty_file:
  "map_option (\<lambda>st. getDataFileList decompressPartial 40 (outData st))
     (calls (testExt 524288) [AppendFilePart ''a.txt'' 0 [] 7 0, Flush] BuilderImpl_start)
   = Some (Inr [])"
  by (simp add: appendFilePart_def flushIfNeeded_below flush_nothing_pending testExt_def
      BuilderImpl_start_def getDataFileList_def)

section \<open>Draining the queue\<close>

text \<open>The bytes of the files are conserved by a cut, in their order.\<close>

lemma file_bytes_simps [simp]:
  "file_bytes [] = []"
  "file_bytes (f # fs) = blob_bytes (contents f) @ file_bytes fs"
  "file_bytes (fs @ gs) = file_bytes fs @ file_bytes gs"
  by (simp_all add: file_bytes_def)







lemma blob_ok_cut_rest:
  "blob_ok (contents f) \<Longrightarrow> k \<le> blob_size (contents f) \<Longrightarrow>
   blob_ok (contents (cut_file f k)) \<and> blob_ok (contents (rest_file f k l))"
  by (simp add: blob_ok_def cut_file_def rest_file_def blob_size_def)

lemma flushChunk_loop_blob_ok:
  assumes "flushChunk_loop sz c q = (c', q')"
    and "list_all (\<lambda>f. blob_ok (contents f)) (files c)" and "list_all (\<lambda>f. blob_ok (contents f)) q"
  shows "list_all (\<lambda>f. blob_ok (contents f)) (files c') \<and> list_all (\<lambda>f. blob_ok (contents f)) q'"
  using assms
proof (induction rule: flushChunk_loop_cases)
  case (stop c q)
  then show ?case by simp
next
  case (fit c f q c' q')
  then show ?case by (simp add: appendChunkFile_def)
next
  case (split c f q c1 f1)
  from split(3) show ?case
  proof (cases rule: appendChunkFilePrefix_cases)
    case none
    then show ?thesis using split(4,5) by simp
  next
    case (lines k)
    have "k \<le> blob_size (contents f)" using lines(3) split(2) by simp
    from blob_ok_cut_rest [OF _ this] show ?thesis using split(4,5) by (simp add: lines(4,5))
  next
    case (long k)
    have "k \<le> blob_size (contents f)" unfolding long(1) by (rule skipOneLine_le)
    from blob_ok_cut_rest [OF _ this] show ?thesis using split(4,5) by (simp add: long(4,5))
  qed
qed

text \<open>
  The payload of a chunk whose windows lie within their storage: behind the file table, the
  names of its files and then their bytes.
\<close>

lemma length_blob_bytes_ok: "blob_ok b \<Longrightarrow> length (blob_bytes b) = blob_size b"
  by (simp add: blob_ok_def blob_bytes_def blob_size_def)

lemma copy_to_middle:
  "length src = length X \<Longrightarrow> copy_to (P @ X @ R) (length P) src = P @ src @ R"
  by (simp add: copy_to_def)

lemma prepareChunkData_loop_payload:
  "list_all (\<lambda>f. blob_ok (contents f)) fs \<Longrightarrow>
   tailBytes d = P @ X @ G @ Y @ S \<Longrightarrow>
   length X = length (names_of fs) \<Longrightarrow> length Y = pending_bytes fs \<Longrightarrow>
   no = hs + length P \<Longrightarrow> do = hs + length P + length X + length G \<Longrightarrow>
   tailBytes (prepareChunkData_loop hs fs i no do d) = P @ names_of fs @ G @ file_bytes fs @ S"
proof (induction fs arbitrary: i no "do" d P X G Y)
  case Nil
  then show ?case by simp
next
  case (Cons f fs)
  let ?nm = "name f"
  let ?bs = "blob_bytes (contents f)"
  have bs: "length ?bs = blob_size (contents f)"
    using Cons.prems(1) by (simp add: length_blob_bytes_ok)
  obtain X1 X2 where X: "X = X1 @ X2" "length X1 = length ?nm" "length X2 = length (names_of fs)"
  proof
    show "X = take (length ?nm) X @ drop (length ?nm) X" by simp
    show "length (take (length ?nm) X) = length ?nm" using Cons.prems(3) by simp
    show "length (drop (length ?nm) X) = length (names_of fs)" using Cons.prems(3) by simp
  qed
  obtain Y1 Y2 where Y: "Y = Y1 @ Y2" "length Y1 = length ?bs" "length Y2 = pending_bytes fs"
  proof
    show "Y = take (length ?bs) Y @ drop (length ?bs) Y" by simp
    show "length (take (length ?bs) Y) = length ?bs" using Cons.prems(4) bs by simp
    show "length (drop (length ?bs) Y) = pending_bytes fs" using Cons.prems(4) bs by simp
  qed
  have t0: "tailBytes d = P @ X1 @ (X2 @ G @ Y1 @ Y2 @ S)"
    using Cons.prems(2) by (simp add: X(1) Y(1))
  have a: "no - hs = length P" using Cons.prems(5) by simp
  have t1: "copy_to (tailBytes d) (no - hs) ?nm = P @ ?nm @ (X2 @ G @ Y1 @ Y2 @ S)"
    unfolding t0 a by (rule copy_to_middle [OF X(2) [symmetric]])
  have b: "do - hs = length (P @ ?nm @ X2 @ G)"
    using Cons.prems(6) X by simp
  have "copy_to ((P @ ?nm @ X2 @ G) @ Y1 @ (Y2 @ S)) (length (P @ ?nm @ X2 @ G)) ?bs
        = (P @ ?nm @ X2 @ G) @ ?bs @ (Y2 @ S)"
    by (rule copy_to_middle [OF Y(2) [symmetric]])
  then have t2: "copy_to (copy_to (tailBytes d) (no - hs) ?nm) (do - hs) ?bs
            = (P @ ?nm) @ X2 @ (G @ ?bs) @ Y2 @ S"
    unfolding t1 b by simp
  let ?d = "d\<lparr>fileTable := (fileTable d)
                [i := \<lparr>nameOffset = no, nameLength = length ?nm,
                       dataOffset = do, dataSize = blob_size (contents f),
                       DataChunkFileHeader.startLine = File.startLine f, reserved = 0,
                       DataChunkFileHeader.fileSize = File.fileSize f,
                       DataChunkFileHeader.timeStamp = File.timeStamp f\<rparr>],
             tailBytes := copy_to (copy_to (tailBytes d) (no - hs) ?nm) (do - hs) ?bs\<rparr>"
  have "tailBytes (prepareChunkData_loop hs fs (i + 1) (no + length ?nm) (do + blob_size (contents f)) ?d)
        = (P @ ?nm) @ names_of fs @ (G @ ?bs) @ file_bytes fs @ S"
  proof (rule Cons.IH [where X = X2 and Y = Y2])
    show "list_all (\<lambda>f. blob_ok (contents f)) fs" using Cons.prems(1) by simp
    show "tailBytes ?d = (P @ ?nm) @ X2 @ (G @ ?bs) @ Y2 @ S" using t2 by simp
    show "length X2 = length (names_of fs)" by (rule X(3))
    show "length Y2 = pending_bytes fs" by (rule Y(3))
    show "no + length ?nm = hs + length (P @ ?nm)" using Cons.prems(5) by simp
    show "do + blob_size (contents f) = hs + length (P @ ?nm) + length X2 + length (G @ ?bs)"
      using Cons.prems(6) X bs by simp
  qed
  then show ?case by simp
qed

lemma payload_prepareChunkData:
  assumes "list_all (\<lambda>f. blob_ok (contents f)) (files c)"
  shows "tailBytes (prepareChunkData E c) = names_of (files c) @ file_bytes (files c)"
proof -
  let ?fs = "files c"
  let ?hs = "sizeofDataChunkFileHeader E * length ?fs"
  let ?N = "getChunkNameTotalSize c"
  let ?D = "getChunkDataTotalSize c"
  let ?d0 = "\<lparr>fileTable = replicate (length ?fs) zero_entry,
             tailBytes = replicate (?N + ?D) (CHR 0x00)\<rparr>"
  have N: "?N = length (names_of ?fs)"
    by (simp add: getChunkNameTotalSize_def length_names_of)
  have D: "?D = pending_bytes ?fs" by (rule getChunkDataTotalSize_bytes)
  have d: "prepareChunkData E c = prepareChunkData_loop ?hs ?fs 0 ?hs (?hs + ?N) ?d0"
    by (simp add: prepareChunkData_def Let_def)
  have "tailBytes (prepareChunkData_loop ?hs ?fs 0 ?hs (?hs + ?N) ?d0)
        = [] @ names_of ?fs @ [] @ file_bytes ?fs @ []"
  proof (rule prepareChunkData_loop_payload
      [where X = "replicate ?N (CHR 0x00)" and Y = "replicate ?D (CHR 0x00)", OF assms])
    show "tailBytes ?d0 = [] @ replicate ?N (CHR 0x00) @ [] @ replicate ?D (CHR 0x00) @ []"
      by (simp add: replicate_add)
  qed (simp_all add: N D)
  then show ?thesis unfolding d by simp
qed




lemma flush_pendingExample:
  "map_option (\<lambda>s. (map cdata (outData s), map (DataChunkHeader.fileCount \<circ> header) (outData s),
                     pendingFiles s, pendingSize s))
     (flush (testExt 4) pendingExample)
   = Some ([''a.txt'' @ [CHR ''a'', CHR ''b'', newline],
            ''a.txt'' @ [CHR ''c'', CHR ''d'', newline, CHR ''e'']], [1, 1], [], 0)"
  by code_simp

section \<open>The budget of a chunk\<close>

lemma flushChunk_loop_budget:
  assumes "flushChunk_loop sz c q = (c', q')"
    and "totalSize c = pending_bytes (files c)" and "totalSize c \<le> sz"
  shows "totalSize c' \<le> sz \<or> (\<exists>f. files c' = [f] \<and> one_long_line sz f)"
  using assms
proof (induction rule: flushChunk_loop_cases)
  case (stop c q)
  then show ?case by simp
next
  case (fit c f q c' q')
  then show ?case by (simp add: appendChunkFile_def)
next
  case (split c f q c1 f1)
  from split(3) show ?case
  proof (cases rule: appendChunkFilePrefix_cases)
    case none
    then show ?thesis using split by simp
  next
    case (lines k)
    have "totalSize c + k \<le> sz" using lines(3) split(1) by simp
    then show ?thesis using lines(4) by simp
  next
    case (long k)
    have r: "sz - totalSize c = sz" using long(2) split(4) by simp
    have "sz < k"
      unfolding long(1) using long(3) split(2) r by (intro skipOneLine_beyond) auto
    moreover have "\<And>j. j < k - 1 \<Longrightarrow> blob_data (contents f) j \<noteq> newline"
      unfolding long(1)
      by (rule skipOneLine_scan [where n = "blob_size (contents f)"]) simp
    ultimately have "one_long_line sz (cut_file f k)"
      by (simp add: one_long_line_def list_all_iff)
    then show ?thesis using long by simp
  qed
qed

lemma flushChunk_budget:
  assumes "list_all (budget_ok sz) (flushed st)"
  shows "list_all (budget_ok sz) (flushed (flushChunk E sz st))"
proof -
  obtain c q where loop: "flushChunk_loop sz \<lparr>files = [], totalSize = 0\<rparr> (pendingFiles st) = (c, q)"
    by (cases "flushChunk_loop sz \<lparr>files = [], totalSize = 0\<rparr> (pendingFiles st)")
  have sum: "totalSize c = pending_bytes (files c)"
    by (rule flushChunk_loop_sum [OF loop]) simp
  have "totalSize c \<le> sz \<or> (\<exists>f. files c = [f] \<and> one_long_line sz f)"
    by (rule flushChunk_loop_budget [OF loop]) simp_all
  then have "files c \<noteq> [] \<Longrightarrow> budget_ok sz c"
    using sum by (auto simp: budget_ok_def getChunkDataTotalSize_def pending_bytes_def)
  then show ?thesis
    using assms by (simp add: flushChunk_eq [OF loop] flushChunk_store_flushed)
qed

text \<open>A sequence of calls ends, and keeps what every cut and every append keeps.\<close>

lemma calls_ends:
  assumes pos: "0 < kChunkSize E"
    and step: "\<And>s. count_ok s \<Longrightarrow> I s \<Longrightarrow> I (flushChunk E (kChunkSize E) s)"
    and push: "\<And>s p l d t z. AppendFilePart p l d t z \<in> A \<Longrightarrow> I s \<Longrightarrow>
                 I (s\<lparr>pendingFiles := pendingFiles s @
                        [\<lparr>name = p, contents = Blob_of d, File.startLine = l,
                          File.fileSize = z, File.timeStamp = t\<rparr>],
                      pendingSize := pendingSize s + length d\<rparr>)"
  shows "set cs \<subseteq> A \<Longrightarrow> count_ok st \<Longrightarrow> I st \<Longrightarrow>
         \<exists>st'. calls E cs st = Some st' \<and> count_ok st' \<and> I st'"
proof (induction cs arbitrary: st)
  case Nil
  then show ?case by simp
next
  case (Cons c cs)
  have "\<exists>s. call E c st = Some s \<and> count_ok s \<and> I s"
  proof (cases c)
    case Flush
    then show ?thesis
      using flush_ends [where I = I, OF pos step Cons.prems(2,3)] by auto
  next
    case (AppendFilePart p l d t z)
    let ?s = "st\<lparr>pendingFiles := pendingFiles st @
                  [\<lparr>name = p, contents = Blob_of d, File.startLine = l,
                    File.fileSize = z, File.timeStamp = t\<rparr>],
                pendingSize := pendingSize st + length d\<rparr>"
    have "count_ok ?s"
      using Cons.prems(2) by (simp add: count_ok_def blob_size_def Blob_of_def)
    moreover have "I ?s"
      using Cons.prems(1,3) AppendFilePart by (intro push) auto
    ultimately show ?thesis
      using flushIfNeeded_ends [where I = I, OF pos step] AppendFilePart
      by (simp add: appendFilePart_def)
  qed
  then obtain s where s: "call E c st = Some s" "count_ok s" "I s" by blast
  then show ?case using Cons.IH [of s] Cons.prems(1) by simp
qed

lemma count_ok_start: "count_ok BuilderImpl_start"
  by (simp add: count_ok_def BuilderImpl_start_def)

text \<open>
  C6, amended. For every sequence of calls on a new builder with a positive chunk size, the
  calls return and every chunk emitted has at least one file, and its body bytes (the sum of
  the \<^verbatim>\<open>dataSize\<close> of its files) are at most \<^verbatim>\<open>kChunkSize\<close>, unless the chunk is a single
  file that is one line longer than \<^verbatim>\<open>kChunkSize\<close>. The uncompressed payload is larger than
  the body bytes by the file table and the names (\<open>data_size_prepareChunkData\<close>).
\<close>

theorem C6_body_bytes_within_chunk_size:
  assumes "0 < kChunkSize E"
  shows "\<exists>st. calls E cs BuilderImpl_start = Some st
              \<and> list_all (budget_ok (kChunkSize E)) (flushed st)"
proof -
  let ?I = "\<lambda>s. list_all (budget_ok (kChunkSize E)) (flushed s)"
  have "\<exists>st. calls E cs BuilderImpl_start = Some st \<and> count_ok st \<and> ?I st"
  proof (rule calls_ends [where I = ?I and A = "set cs", OF assms])
    show "?I BuilderImpl_start" by (simp add: BuilderImpl_start_def)
  qed (simp_all add: flushChunk_budget count_ok_start)
  then show ?thesis by blast
qed

text \<open>The theorem at two appended files and chunk size 4.\<close>

theorem C6_witness:
  "0 < kChunkSize (testExt 4)
   \<and> (\<exists>st. calls (testExt 4)
              [AppendFilePart ''a'' 0 [CHR ''x'', newline] 7 2,
               AppendFilePart ''b'' 0 [CHR ''y'', newline] 8 2, Flush] BuilderImpl_start = Some st
          \<and> list_all (budget_ok (kChunkSize (testExt 4))) (flushed st))"
proof -
  have h: "0 < kChunkSize (testExt 4)" by (simp add: testExt_def)
  from C6_body_bytes_within_chunk_size [OF h] h show ?thesis by blast
qed

text \<open>
  The claim as stated bounds the uncompressed payload. Two files of two bytes each fill a
  chunk of size 4; its payload has 2 * 40 bytes of file table, 2 name bytes and 4 body
  bytes, 86 in all, and the chunk is not a single file.
\<close>

theorem C6_payload_exceeds_chunk_size:
  "map_option (map (\<lambda>c. (DataChunkHeader.fileCount (header c), uncompressedSize (header c))) \<circ> outData)
     (calls (testExt 4)
        [AppendFilePart ''a'' 0 [CHR ''x'', newline] 7 2,
         AppendFilePart ''b'' 0 [CHR ''y'', newline] 8 2, Flush] BuilderImpl_start)
   = Some [(2, 86)]
   \<and> kChunkSize (testExt 4) < 86"
  by code_simp

section \<open>Fragments and lines\<close>






lemma fragments_ok_simps [simp]:
  "fragments_ok A []"
  "fragments_ok A (f # fs) \<longleftrightarrow> (\<exists>part\<in>A. fragment_of part f) \<and> fragments_ok A fs"
  "fragments_ok A (fs @ gs) \<longleftrightarrow> fragments_ok A fs \<and> fragments_ok A gs"
  by (auto simp: fragments_ok_def)









text \<open>
  The start line wraps as in the source: a part appended with start line \<open>2^32 - 1\<close> and
  cut behind its first line leaves a remainder with start line 0.
\<close>

lemma start_line_wraps:
  "map_option
     (\<lambda>st. concat (map (\<lambda>c. map (\<lambda>f. (File.startLine f, blob_bytes (contents f))) (files c))
              (flushed st)))
     (calls (testExt 2)
        [AppendFilePart ''a'' 4294967295 [CHR ''x'', newline, CHR ''y'', newline] 7 4, Flush]
        BuilderImpl_start)
   = Some [(4294967295, [CHR ''x'', newline]), (0, [CHR ''y'', newline])]"
  by code_simp

section \<open>The index of a chunk\<close>

lemma clamp_floor:
  fixes k :: rat
  shows "(if k < 1 then 1 else if k > 16 then 16 else nat \<lfloor>k\<rfloor>) = max 1 (min 16 (nat \<lfloor>k\<rfloor>))"
proof (cases "k < 1")
  case True
  then have "\<lfloor>k\<rfloor> \<le> 0" by (simp add: floor_le_iff)
  then have "nat \<lfloor>k\<rfloor> = 0" by simp
  then show ?thesis using True by simp
next
  case ge1: False
  then have "1 \<le> \<lfloor>k\<rfloor>" by (simp add: le_floor_iff)
  then have f1: "1 \<le> nat \<lfloor>k\<rfloor>" by arith
  show ?thesis
  proof (cases "k > 16")
    case True
    then have "16 \<le> \<lfloor>k\<rfloor>" by (simp add: le_floor_iff)
    then have "16 \<le> nat \<lfloor>k\<rfloor>" by arith
    then show ?thesis using ge1 True by (simp add: min_def max_def)
  next
    case False
    then have "\<lfloor>k\<rfloor> \<le> 16" by (simp add: floor_le_iff)
    then have "nat \<lfloor>k\<rfloor> \<le> 16" by arith
    then show ?thesis using ge1 False f1 by (simp add: min_def max_def)
  qed
qed

lemma getIndexHashIterations_clamp:
  "getIndexHashIterations i n =
   max 1 (min 16 (nat \<lfloor>if n = 0 then 1
                        else (693147181 / 1000000000) * rat_of_nat ((i * 8) mod 2 ^ 32) / rat_of_nat n\<rfloor>))"
  unfolding getIndexHashIterations_def Let_def by (rule clamp_floor)


lemma getIndexHashIterations_floor:
  assumes "i * 8 < 2 ^ 32"
  shows "getIndexHashIterations i n =
         (if n = 0 then 1
          else max 1 (min 16 (nat \<lfloor>(693147181 / 1000000000) * rat_of_nat (i * 8) / rat_of_nat n\<rfloor>)))"
proof -
  have m: "(i * 8) mod 2 ^ 32 = i * 8" using assms by simp
  show ?thesis
    unfolding getIndexHashIterations_clamp m by (cases "n = 0") simp_all
qed

text \<open>Bounds of the natural logarithm of 2 that place the rounded quotient.\<close>

lemma ln2_lower: "3 / 5 < ln (2 :: real)"
proof -
  have a: "ln (3 / 4 :: real) \<le> - (1 / 4)" using ln_le_minus_one [of "3 / 4 :: real"] by simp
  have b: "ln (4 / 5 :: real) \<le> - (1 / 5)" using ln_le_minus_one [of "4 / 5 :: real"] by simp
  have c: "ln (5 / 6 :: real) \<le> - (1 / 6)" using ln_le_minus_one [of "5 / 6 :: real"] by simp
  have "ln ((3 / 4) * ((4 / 5) * (5 / 6)) :: real) = ln (3 / 4) + ln ((4 / 5) * (5 / 6))"
    by (rule ln_mult_pos) simp_all
  moreover have "ln ((4 / 5) * (5 / 6) :: real) = ln (4 / 5) + ln (5 / 6)"
    by (rule ln_mult_pos) simp_all
  moreover have "(3 / 4) * ((4 / 5) * (5 / 6)) = (1 / 2 :: real)" by simp
  ultimately have "ln (1 / 2 :: real) = ln (3 / 4) + (ln (4 / 5) + ln (5 / 6))" by simp
  then have "ln (1 / 2 :: real) \<le> - (37 / 60)" using a b c by simp
  moreover have "ln (1 / 2 :: real) = - ln 2" by (simp add: ln_div)
  ultimately show ?thesis by simp
qed

lemma collectNgrams_loop_step:
  "j < sz \<Longrightarrow>
   collectNgrams_loop E fd sz j g =
   collectNgrams_loop E fd sz (j + 1)
     (if fd (j - 3) \<noteq> newline \<and> fd (j - 2) \<noteq> newline \<and> fd (j - 1) \<noteq> newline \<and> fd j \<noteq> newline
      then List.insert (ngram E (fd (j - 3)) (fd (j - 2)) (fd (j - 1)) (fd j)) g else g)"
  by (subst collectNgrams_loop.simps) (simp add: Let_def)

lemma collectNgrams_loop_stop: "\<not> j < sz \<Longrightarrow> collectNgrams_loop E fd sz j g = g"
  by (subst collectNgrams_loop.simps) simp

lemma collectNgrams_loop_length:
  "length (collectNgrams_loop E fd sz j g) \<le> length g + (sz - j)"
proof (induction "sz - j" arbitrary: j g)
  case 0
  then show ?case by (simp add: collectNgrams_loop_stop)
next
  case (Suc d)
  then have lt: "j < sz" by simp
  define g' where "g' =
     (if fd (j - 3) \<noteq> newline \<and> fd (j - 2) \<noteq> newline \<and> fd (j - 1) \<noteq> newline \<and> fd j \<noteq> newline
      then List.insert (ngram E (fd (j - 3)) (fd (j - 2)) (fd (j - 1)) (fd j)) g else g)"
  have "length g' \<le> length g + 1" by (simp add: g'_def List.insert_def)
  moreover have "length (collectNgrams_loop E fd sz (j + 1) g') \<le> length g' + (sz - (j + 1))"
    using Suc.hyps(2) by (intro Suc.hyps(1)) simp
  moreover have "collectNgrams_loop E fd sz j g = collectNgrams_loop E fd sz (j + 1) g'"
    unfolding g'_def by (rule collectNgrams_loop_step [OF lt])
  ultimately show ?case using lt by simp
qed

lemma collectNgrams_loop_distinct:
  "distinct g \<Longrightarrow> distinct (collectNgrams_loop E fd sz j g)"
proof (induction "sz - j" arbitrary: j g)
  case 0
  then show ?case by (simp add: collectNgrams_loop_stop)
next
  case (Suc d)
  then have lt: "j < sz" by simp
  define g' where "g' =
     (if fd (j - 3) \<noteq> newline \<and> fd (j - 2) \<noteq> newline \<and> fd (j - 1) \<noteq> newline \<and> fd j \<noteq> newline
      then List.insert (ngram E (fd (j - 3)) (fd (j - 2)) (fd (j - 1)) (fd j)) g else g)"
  have "distinct g'" using Suc.prems by (simp add: g'_def)
  then have "distinct (collectNgrams_loop E fd sz (j + 1) g')"
    using Suc.hyps(2) by (intro Suc.hyps(1)) simp_all
  moreover have "collectNgrams_loop E fd sz j g = collectNgrams_loop E fd sz (j + 1) g'"
    unfolding g'_def by (rule collectNgrams_loop_step [OF lt])
  ultimately show ?case by simp
qed

lemma collectNgrams_length:
  "length (collectNgrams E fs g) \<le> length g + pending_bytes fs"
proof (induction fs arbitrary: g)
  case Nil
  then show ?case by simp
next
  case (Cons f fs)
  have "length (collectNgrams_loop E (blob_data (contents f)) (blob_size (contents f)) 3 g)
        \<le> length g + blob_size (contents f)"
    using collectNgrams_loop_length [of E "blob_data (contents f)" "blob_size (contents f)" 3 g]
    by simp
  then show ?case
    using Cons.IH [of "collectNgrams_loop E (blob_data (contents f)) (blob_size (contents f)) 3 g"]
    by simp
qed

lemma collectNgrams_distinct:
  "distinct g \<Longrightarrow> distinct (collectNgrams E fs g)"
  by (induction fs arbitrary: g) (simp_all add: collectNgrams_loop_distinct)

text \<open>The set of ngrams that the loops collect.\<close>

lemma windows_empty: "\<not> a < b \<Longrightarrow> windows E fd a b = {}"
  by (auto simp: windows_def)

lemma windows_step:
  assumes "a < b"
  shows "windows E fd a b =
     (if fd (a - 3) \<noteq> newline \<and> fd (a - 2) \<noteq> newline \<and> fd (a - 1) \<noteq> newline \<and> fd a \<noteq> newline
      then {ngram E (fd (a - 3)) (fd (a - 2)) (fd (a - 1)) (fd a)} else {}) \<union> windows E fd (a + 1) b"
proof -
  let ?ok = "\<lambda>i. fd (i - 3) \<noteq> newline \<and> fd (i - 2) \<noteq> newline \<and> fd (i - 1) \<noteq> newline \<and> fd i \<noteq> newline"
  have "{i. a \<le> i \<and> i < b \<and> ?ok i} = (if ?ok a then {a} else {}) \<union> {i. a + 1 \<le> i \<and> i < b \<and> ?ok i}"
    using assms by (auto simp: Suc_le_eq le_less)
  then show ?thesis
    unfolding windows_def by (simp add: image_Un split: if_splits)
qed

lemma collectNgrams_loop_set:
  "set (collectNgrams_loop E fd sz j g) = set g \<union> windows E fd j sz"
proof (induction "sz - j" arbitrary: j g)
  case 0
  then show ?case by (simp add: collectNgrams_loop_stop windows_empty)
next
  case (Suc d)
  then have lt: "j < sz" by simp
  define g' where "g' =
     (if fd (j - 3) \<noteq> newline \<and> fd (j - 2) \<noteq> newline \<and> fd (j - 1) \<noteq> newline \<and> fd j \<noteq> newline
      then List.insert (ngram E (fd (j - 3)) (fd (j - 2)) (fd (j - 1)) (fd j)) g else g)"
  have g': "set g' = set g \<union>
     (if fd (j - 3) \<noteq> newline \<and> fd (j - 2) \<noteq> newline \<and> fd (j - 1) \<noteq> newline \<and> fd j \<noteq> newline
      then {ngram E (fd (j - 3)) (fd (j - 2)) (fd (j - 1)) (fd j)} else {})"
    by (simp add: g'_def)
  have "set (collectNgrams_loop E fd sz (j + 1) g') = set g' \<union> windows E fd (j + 1) sz"
    using Suc.hyps(2) by (intro Suc.hyps(1)) simp
  moreover have "collectNgrams_loop E fd sz j g = collectNgrams_loop E fd sz (j + 1) g'"
    unfolding g'_def by (rule collectNgrams_loop_step [OF lt])
  ultimately show ?case
    unfolding g' windows_step [OF lt] by (simp add: Un_assoc)
qed

lemma collectNgrams_set:
  "set (collectNgrams E fs g)
   = set g \<union> (\<Union>f\<in>set fs. windows E (blob_data (contents f)) 3 (blob_size (contents f)))"
  by (induction fs arbitrary: g) (auto simp: collectNgrams_loop_set)

text \<open>
  The ngrams of the chunk of three strided files: \<open>ngram_be\<close> is one-to-one, the windows of
  a file with an odd stride are the 128 windows of its stride, and windows of different
  strides differ in the step from the first byte to the second.
\<close>

lemma base256:
  fixes a b c d :: nat
  shows "b < 256 \<Longrightarrow> d < 256 \<Longrightarrow> a * 256 + b = c * 256 + d \<Longrightarrow> a = c \<and> b = d"
proof -
  assume b: "b < 256" and d: "d < 256" and e: "a * 256 + b = c * 256 + d"
  have "(a * 256 + b) div 256 = a" using b by simp
  moreover have "(c * 256 + d) div 256 = c" using d by simp
  ultimately have "a = c" using e by simp
  then show ?thesis using e by simp
qed

lemma ngram_be_inj:
  assumes "ngram_be a b c d = ngram_be a' b' c' d'"
  shows "a = a' \<and> b = b' \<and> c = c' \<and> d = d'"
proof -
  have lt: "of_char x < (256 :: nat)" for x :: char
    using take_bit_nat_less_exp [of 8 "of_char x"] by simp
  let ?n = "of_char :: char \<Rightarrow> nat"
  from assms have e1: "((?n a * 256 + ?n b) * 256 + ?n c) * 256 + ?n d
                       = ((?n a' * 256 + ?n b') * 256 + ?n c') * 256 + ?n d'"
    by (simp add: ngram_be_def)
  from base256 [OF lt lt e1]
  have e2: "(?n a * 256 + ?n b) * 256 + ?n c = (?n a' * 256 + ?n b') * 256 + ?n c'"
    and d: "?n d = ?n d'" by simp_all
  from base256 [OF lt lt e2]
  have e3: "?n a * 256 + ?n b = ?n a' * 256 + ?n b'" and c: "?n c = ?n c'" by simp_all
  from base256 [OF lt lt e3] have a: "?n a = ?n a'" and b: "?n b = ?n b'" by simp_all
  show ?thesis using a b c d by simp
qed

lemma char_of_inj_256:
  fixes m m' :: nat
  assumes "m < 256" "m' < 256" "(char_of m :: char) = char_of m'"
  shows "m = m'"
proof -
  have "of_char (char_of m :: char) = (of_char (char_of m' :: char) :: nat)" using assms(3) by simp
  then show ?thesis using assms(1,2) by simp
qed

lemma char_of_not_newline:
  fixes y :: nat
  assumes "y < 128"
  shows "(char_of (32 + y) :: char) \<noteq> newline"
proof
  assume "(char_of (32 + y) :: char) = newline"
  then have "of_char (char_of (32 + y) :: char) = (of_char newline :: nat)" by simp
  then show False using assms by simp
qed

lemma blob_data_strided:
  "i < n \<Longrightarrow> blob_data (Blob_of (strided s n)) i = char_of (32 + (s * i) mod 128)"
  by (simp add: blob_data_def Blob_of_def strided_def)

lemma blob_size_strided [simp]: "blob_size (Blob_of (strided s n)) = n"
  by (simp add: blob_size_def Blob_of_def strided_def)

lemma shift_apart:
  fixes x d :: nat
  assumes "0 < d" "d < 128"
  shows "(x + d) mod 128 \<noteq> x mod 128"
proof
  assume h: "(x + d) mod 128 = x mod 128"
  have "128 dvd (x + d) - x" using mod_eq_dvd_iff_nat [of x "x + d" 128] h by simp
  then have "128 dvd d" by simp
  then show False using assms by (auto dest: dvd_imp_le)
qed

lemma strided_window:
  assumes "3 \<le> i" "i < n"
  shows "ngram_be (blob_data (Blob_of (strided s n)) (i - 3)) (blob_data (Blob_of (strided s n)) (i - 2))
           (blob_data (Blob_of (strided s n)) (i - 1)) (blob_data (Blob_of (strided s n)) i)
         = stride_window (s, (s * (i - 3)) mod 128)"
proof -
  obtain j where i: "i = j + 3" using assms(1) by (metis add.commute le_Suc_ex)
  let ?x = "(s * j) mod 128"
  have step: "(s * (j + m)) mod 128 = (?x + m * s) mod 128" for m
  proof -
    have "(?x + m * s) mod 128 = (s * j + m * s) mod 128" by (rule mod_add_left_eq)
    also have "s * j + m * s = s * (j + m)" by (simp add: distrib_left mult.commute)
    finally show ?thesis by simp
  qed
  have v: "blob_data (Blob_of (strided s n)) (j + m) = char_of (32 + (?x + m * s) mod 128)"
    if "m \<le> 3" for m
  proof -
    have "j + m < n" using that assms(2) i by simp
    then show ?thesis by (simp only: blob_data_strided step)
  qed
  have d: "i - 3 = j + 0" "i - 2 = j + 1" "i - 1 = j + 2" "i = j + 3" using i by simp_all
  have "ngram_be (blob_data (Blob_of (strided s n)) (j + 0)) (blob_data (Blob_of (strided s n)) (j + 1))
           (blob_data (Blob_of (strided s n)) (j + 2)) (blob_data (Blob_of (strided s n)) (j + 3))
         = stride_window (s, ?x)"
    by (simp only: v stride_window_def prod.case) simp
  then show ?thesis by (simp only: d) simp
qed

lemma strided_ok:
  assumes "i < n"
  shows "blob_data (Blob_of (strided s n)) i \<noteq> newline"
  using assms by (simp add: blob_data_strided char_of_not_newline)

lemma stride_onto:
  fixes s t n :: nat
  assumes inv: "(s * t) mod 128 = 1" and n: "131 \<le> n"
  shows "(\<lambda>i. (s * (i - 3)) mod 128) ` {i. 3 \<le> i \<and> i < n} = {0..<128}"
proof (rule set_eqI, rule iffI)
  fix x :: nat assume "x \<in> (\<lambda>i. (s * (i - 3)) mod 128) ` {i. 3 \<le> i \<and> i < n}"
  then show "x \<in> {0..<128}" by auto
next
  fix x :: nat assume "x \<in> {0..<128}"
  then have x: "x < 128" by simp
  let ?i = "3 + (t * x) mod 128"
  have "(s * ((t * x) mod 128)) mod 128 = (s * (t * x)) mod 128" by (rule mod_mult_right_eq)
  also have "\<dots> = ((s * t) mod 128 * x) mod 128" by (simp add: mod_mult_left_eq mult.assoc)
  also have "\<dots> = x" using inv x by simp
  finally have e: "(s * (?i - 3)) mod 128 = x" by simp
  have "(t * x) mod 128 < 128" by simp
  then have r: "3 \<le> ?i \<and> ?i < n" using n by linarith
  show "x \<in> (\<lambda>i. (s * (i - 3)) mod 128) ` {i. 3 \<le> i \<and> i < n}"
  proof (rule image_eqI [where x = ?i])
    show "x = (s * (?i - 3)) mod 128" using e by (rule sym)
    show "?i \<in> {i. 3 \<le> i \<and> i < n}" using r by simp
  qed
qed

lemma windows_strided:
  assumes inv: "(s * t) mod 128 = 1" and n: "131 \<le> n"
  shows "windows (testExt k) (blob_data (Blob_of (strided s n))) 3 n = stride_window ` ({s} \<times> {0..<128})"
proof -
  let ?fd = "blob_data (Blob_of (strided s n))"
  have ok: "{i. 3 \<le> i \<and> i < n \<and> ?fd (i - 3) \<noteq> newline \<and> ?fd (i - 2) \<noteq> newline
                 \<and> ?fd (i - 1) \<noteq> newline \<and> ?fd i \<noteq> newline} = {i. 3 \<le> i \<and> i < n}"
    using strided_ok [of _ n s] by auto
  have "windows (testExt k) ?fd 3 n
        = (\<lambda>i. stride_window (s, (s * (i - 3)) mod 128)) ` {i. 3 \<le> i \<and> i < n}"
    unfolding windows_def ok
  proof (rule image_cong [OF refl])
    fix i assume "i \<in> {i. 3 \<le> i \<and> i < n}"
    then have i: "3 \<le> i" "i < n" by simp_all
    have ng: "ngram (testExt k) = ngram_be" by (simp add: testExt_def)
    show "ngram (testExt k) (?fd (i - 3)) (?fd (i - 2)) (?fd (i - 1)) (?fd i)
          = stride_window (s, (s * (i - 3)) mod 128)"
      unfolding ng by (rule strided_window [OF i])
  qed
  also have "\<dots> = (\<lambda>x. stride_window (s, x)) ` ((\<lambda>i. (s * (i - 3)) mod 128) ` {i. 3 \<le> i \<and> i < n})"
    by (simp add: image_image)
  also have "\<dots> = (\<lambda>x. stride_window (s, x)) ` {0..<128}"
    unfolding stride_onto [OF inv n] ..
  also have "\<dots> = stride_window ` ({s} \<times> {0..<128})" by auto
  finally show ?thesis .
qed

lemma stride_window_inj: "inj_on stride_window ({3, 5, 7} \<times> {0..<128})"
proof (rule inj_onI)
  fix p q assume p: "p \<in> {3, 5, 7} \<times> {0..<128}" and q: "q \<in> {3, 5, 7} \<times> {0..<128}"
    and e: "stride_window p = stride_window q"
  obtain s x where ps: "p = (s, x)" by (cases p)
  obtain s' x' where qs: "q = (s', x')" by (cases q)
  have s: "s \<in> {3, 5, 7}" "x < 128" using p ps by auto
  have s': "s' \<in> {3, 5, 7}" "x' < 128" using q qs by auto
  from e have "char_of (32 + x) = (char_of (32 + x') :: char)
             \<and> char_of (32 + (x + s) mod 128) = (char_of (32 + (x' + s') mod 128) :: char)"
    unfolding ps qs stride_window_def prod.case by (blast dest: ngram_be_inj)
  then have "32 + x = 32 + x'" and "32 + (x + s) mod 128 = 32 + (x' + s') mod 128"
    using s(2) s'(2) by (auto intro!: char_of_inj_256)
  then have x: "x = x'" and m: "(x + s) mod 128 = (x + s') mod 128" by simp_all
  have "s = s'"
  proof (rule ccontr)
    assume ne: "s \<noteq> s'"
    show False
    proof (cases "s < s'")
      case True
      then have "0 < s' - s" "s' - s < 128" using s'(1) by auto
      from shift_apart [OF this, of "x + s"] show False using m True by simp
    next
      case False
      then have lt: "s' < s" using ne by simp
      then have "0 < s - s'" "s - s' < 128" using s(1) by auto
      from shift_apart [OF this, of "x + s'"] show False using m lt by simp
    qed
  qed
  then show "p = q" using x ps qs by simp
qed

lemma stridedExample_bytes: "getChunkDataTotalSize stridedExample = 51200"
  by (simp add: stridedExample_def getChunkDataTotalSize_def)

lemma stridedExample_ngrams:
  "set (collectNgrams (testExt k) (files stridedExample) []) = stride_window ` ({3, 5, 7} \<times> {0..<128})"
proof -
  have a: "windows (testExt k) (blob_data (Blob_of (strided 3 20000))) 3 20000
           = stride_window ` ({3} \<times> {0..<128})"
    by (rule windows_strided [where t = 43]) simp_all
  have b: "windows (testExt k) (blob_data (Blob_of (strided 5 20000))) 3 20000
           = stride_window ` ({5} \<times> {0..<128})"
    by (rule windows_strided [where t = 77]) simp_all
  have c: "windows (testExt k) (blob_data (Blob_of (strided 7 11200))) 3 11200
           = stride_window ` ({7} \<times> {0..<128})"
    by (rule windows_strided [where t = 55]) simp_all
  have u: "{3, 5, 7} \<times> {0..<128} = {3} \<times> {0..<128} \<union> {5} \<times> {0..<128} \<union> {7::nat} \<times> {0..<128::nat}"
    by auto
  have "set (collectNgrams (testExt k) (files stridedExample) [])
        = (\<Union>f\<in>set (files stridedExample).
             windows (testExt k) (blob_data (contents f)) 3 (blob_size (contents f)))"
    using collectNgrams_set [of "testExt k" "files stridedExample" "[]"] by simp
  also have "\<dots> = stride_window ` ({3} \<times> {0..<128}) \<union> stride_window ` ({5} \<times> {0..<128})
                   \<union> stride_window ` ({7} \<times> {0..<128})"
    by (simp add: stridedExample_def a b c Un_assoc)
  finally show ?thesis unfolding u by (simp add: image_Un)
qed

lemma stridedExample_card:
  "card (set (collectNgrams (testExt k) (files stridedExample) [])) = 384"
proof -
  have "card (stride_window ` ({3, 5, 7} \<times> {0..<128})) = card ({3, 5, 7 :: nat} \<times> {0..<128 :: nat})"
    by (rule card_image [OF stride_window_inj])
  then show ?thesis by (simp add: stridedExample_ngrams card_cartesian_product)
qed

lemma stridedExample_index:
  "fst (prepareChunkIndex (testExt k) stridedExample)
   = \<lparr>indexBytes = 1024, ngrams = collectNgrams (testExt k) (files stridedExample) []\<rparr>"
  by (simp add: prepareChunkIndex_def getChunkIndexSize_def stridedExample_bytes Let_def)

text \<open>
  C8, amended. For every chunk with a non-empty index and fewer than \<open>2^32\<close> body bytes, the
  hash count is 1 when no ngram was collected, and otherwise the integer part of
  \<open>0.693147181 * m / n\<close>, clamped to the interval from 1 to 16, with \<open>m\<close> the index size
  times 8 and \<open>n\<close> the number of distinct ngrams. The quotient is exact here and a
  \<^verbatim>\<open>double\<close> in the source.
\<close>

theorem C8_hash_count_is_truncated:
  assumes "getChunkIndexSize c \<noteq> 0" and "getChunkDataTotalSize c < 2 ^ 32"
  shows "(let idx = prepareChunkIndex E c;
              m = indexBytes (fst idx) * 8;
              n = card (set (ngrams (fst idx)))
          in snd idx =
               (if n = 0 then 1
                else max 1 (min 16 (nat \<lfloor>(693147181 / 1000000000) * rat_of_nat m / rat_of_nat n\<rfloor>))))"
proof -
  let ?D = "getChunkDataTotalSize c"
  let ?g = "collectNgrams E (files c) []"
  have ix: "getChunkIndexSize c = ?D div 50"
    using assms(1) by (simp add: getChunkIndexSize_def Let_def split: if_splits)
  have small: "?D div 50 * 8 < 2 ^ 32" using assms(2) by simp
  have "length ?g \<le> ?D"
    using collectNgrams_length [of E "files c" "[]"] by (simp add: getChunkDataTotalSize_bytes)
  then have n: "length ?g mod 2 ^ 32 = length ?g" using assms(2) by simp
  have i: "(?D div 50) mod 2 ^ 32 = ?D div 50" using assms(2) by simp
  have card: "card (set ?g) = length ?g"
    by (rule distinct_card) (simp add: collectNgrams_distinct)
  have "prepareChunkIndex E c
        = (\<lparr>indexBytes = ?D div 50, ngrams = ?g\<rparr>, getIndexHashIterations (?D div 50) (length ?g))"
    using assms(1) unfolding prepareChunkIndex_def Let_def ix n i by simp
  then show ?thesis
    by (simp add: Let_def card getIndexHashIterations_floor [OF small])
qed

text \<open>
  The theorem at the chunk of three strided files: an index of 1024 bytes and 384 distinct
  ngrams give the quotient 14.78..., and the hash count is 14, inside the interval.
\<close>

theorem C8_witness:
  "getChunkIndexSize stridedExample \<noteq> 0 \<and> getChunkDataTotalSize stridedExample < 2 ^ 32
   \<and> indexBytes (fst (prepareChunkIndex (testExt 524288) stridedExample)) = 1024
   \<and> card (set (ngrams (fst (prepareChunkIndex (testExt 524288) stridedExample)))) = 384
   \<and> snd (prepareChunkIndex (testExt 524288) stridedExample) = 14"
proof -
  have h1: "getChunkIndexSize stridedExample \<noteq> 0"
    by (simp add: getChunkIndexSize_def stridedExample_bytes)
  have h2: "getChunkDataTotalSize stridedExample < 2 ^ 32"
    by (simp add: stridedExample_bytes)
  have m: "indexBytes (fst (prepareChunkIndex (testExt 524288) stridedExample)) = 1024"
    by (simp add: stridedExample_index)
  have n: "card (set (ngrams (fst (prepareChunkIndex (testExt 524288) stridedExample)))) = 384"
    by (simp add: stridedExample_index stridedExample_card)
  have f: "\<lfloor>(693147181 / 1000000000) * rat_of_nat (1024 * 8) / rat_of_nat 384 :: rat\<rfloor> = 14"
    by (rule floor_unique) simp_all
  have "snd (prepareChunkIndex (testExt 524288) stridedExample) = 14"
    using C8_hash_count_is_truncated [OF h1 h2, of "testExt 524288"]
    unfolding Let_def m n f by simp
  then show ?thesis using h1 h2 m n by simp
qed

text \<open>
  The claim as stated rounds. For an index of 1250 bytes and 4000 distinct ngrams the
  quotient is about 1.73: the code returns 1, and \<open>ln 2 * m / n\<close> rounded is 2.
\<close>

theorem C8_hash_count_is_not_rounded:
  "getIndexHashIterations 1250 4000 = 1
   \<and> max 1 (min 16 (round (ln 2 * real (1250 * 8) / real 4000))) = 2"
proof
  have "\<lfloor>693147181 / 400000000 :: rat\<rfloor> = 1" by (rule floor_unique) simp_all
  then show "getIndexHashIterations 1250 4000 = 1"
    by (simp add: getIndexHashIterations_def Let_def)
  have r: "round (ln 2 * real (1250 * 8) / real 4000) = 2"
  proof (rule round_unique)
    show "ln 2 * real (1250 * 8) / real 4000 - 1 / 2 < real_of_int 2"
      using ln_2_less_1 by simp
    show "real_of_int 2 \<le> ln 2 * real (1250 * 8) / real 4000 + 1 / 2"
      using ln2_lower by simp
  qed
  show "max 1 (min 16 (round (ln 2 * real (1250 * 8) / real 4000))) = 2"
    unfolding r by simp
qed




end
